theory Spec2Isabelle
  imports Main "HOL-Library.Sublist" "HOL-Library.Word" "HOL-Library.Code_Target_Nat"
begin

section \<open>Strings\<close>

text \<open>
  A JavaScript string is a sequence of UTF-16 code units. A code unit is modelled as a
  natural number; the code units of a string are below \<open>2^16\<close> (\<open>validString\<close>), and
  what is proved of every list of numbers holds of every string. A code point is a natural
  number too.
\<close>

type_synonym jsString = "nat list"

definition validString :: "jsString \<Rightarrow> bool" where
  "validString s = list_all (\<lambda>c. c < 0x10000) s"

text \<open>The string of an ASCII literal.\<close>

definition ascii :: "string \<Rightarrow> jsString" where
  "ascii s = map of_char s"

text \<open>
  The white space that \<^verbatim>\<open>trim\<close> strips and the class \<^verbatim>\<open>\s\<close> matches (the same set,
  WhiteSpace and LineTerminator of ECMAScript): TAB, LF, VT, FF, CR, SPACE, NO-BREAK SPACE,
  U+1680, U+2000 to U+200A, U+2028, U+2029, U+202F, U+205F, U+3000 and U+FEFF.
\<close>

definition isWhiteSpace :: "nat \<Rightarrow> bool" where
  "isWhiteSpace c =
     (c \<in> {0x9, 0xA, 0xB, 0xC, 0xD, 0x20, 0xA0, 0x1680, 0x2028, 0x2029, 0x202F, 0x205F,
            0x3000, 0xFEFF}
      \<or> (0x2000 \<le> c \<and> c \<le> 0x200A))"

definition trim :: "jsString \<Rightarrow> jsString" where
  "trim s = rev (dropWhile isWhiteSpace (rev (dropWhile isWhiteSpace s)))"

text \<open>\<^verbatim>\<open>s.replace(/\s+/g, ' ')\<close>: every maximal run of white space becomes one space.\<close>

function replaceWhitespace :: "jsString \<Rightarrow> jsString" where
  "replaceWhitespace [] = []"
| "replaceWhitespace (c # cs) =
     (if isWhiteSpace c then 0x20 # replaceWhitespace (dropWhile isWhiteSpace cs)
      else c # replaceWhitespace cs)"
  by pat_completeness auto
termination
  by (relation "measure length") (auto intro: le_imp_less_Suc length_dropWhile_le)

subsection \<open>Lower case\<close>

definition isHighSurrogate :: "nat \<Rightarrow> bool" where
  "isHighSurrogate c = (0xD800 \<le> c \<and> c \<le> 0xDBFF)"

definition isLowSurrogate :: "nat \<Rightarrow> bool" where
  "isLowSurrogate c = (0xDC00 \<le> c \<and> c \<le> 0xDFFF)"

definition isSurrogate :: "nat \<Rightarrow> bool" where
  "isSurrogate c = (0xD800 \<le> c \<and> c \<le> 0xDFFF)"

text \<open>
  StringToCodePoints: a high surrogate followed by a low surrogate is one code point, every
  other code unit, an unpaired surrogate too, is a code point by itself.
\<close>

fun codePoints :: "jsString \<Rightarrow> nat list" where
  "codePoints [] = []"
| "codePoints [c] = [c]"
| "codePoints (c # d # cs) =
     (if isHighSurrogate c \<and> isLowSurrogate d
      then (0x10000 + (c - 0xD800) * 0x400 + (d - 0xDC00)) # codePoints cs
      else c # codePoints (d # cs))"

text \<open>CodePointsToString: a code point from \<open>0x10000\<close> on becomes a surrogate pair.\<close>

fun codeUnits :: "nat list \<Rightarrow> jsString" where
  "codeUnits [] = []"
| "codeUnits (cp # cps) =
     (if cp < 0x10000 then [cp]
      else [0xD800 + (cp - 0x10000) div 0x400, 0xDC00 + (cp - 0x10000) mod 0x400])
     @ codeUnits cps"

text \<open>
  The Unicode Character Database is not part of the repository; what \<^verbatim>\<open>toLowerCase\<close>
  reads from it is a parameter: the lowercase mapping of a code point (one code point or
  more), and the condition Final_Sigma, which decides from the code points before a capital
  sigma (nearest first) and after it whether it is written as a final sigma.
\<close>

record Unicode =
  lowercaseMapping :: "nat \<Rightarrow> nat list"
  finalSigma :: "nat list \<Rightarrow> nat list \<Rightarrow> bool"

text \<open>
  The default case conversion of the Unicode standard on code points: U+03A3 in final
  position becomes U+03C2, every other code point its lowercase mapping.
\<close>

definition lowercaseOf :: "Unicode \<Rightarrow> nat list \<Rightarrow> nat \<Rightarrow> nat list \<Rightarrow> nat list" where
  "lowercaseOf u preceding c following =
     (if c = 0x3A3 \<and> finalSigma u preceding following then [0x3C2] else lowercaseMapping u c)"

fun toLowercase :: "Unicode \<Rightarrow> nat list \<Rightarrow> nat list \<Rightarrow> nat list" where
  "toLowercase u preceding [] = []"
| "toLowercase u preceding (c # following) =
     lowercaseOf u preceding c following @ toLowercase u (c # preceding) following"

text \<open>\<^verbatim>\<open>String.prototype.toLowerCase\<close>.\<close>

definition toLowerCase :: "Unicode \<Rightarrow> jsString \<Rightarrow> jsString" where
  "toLowerCase u s = codeUnits (toLowercase u [] (codePoints s))"

text \<open>\<^verbatim>\<open>normalizeString\<close> (stringNormalizer): \<^verbatim>\<open>str.trim().toLowerCase().replace(/\s+/g, ' ')\<close>.\<close>

definition normalizeString :: "Unicode \<Rightarrow> jsString \<Rightarrow> jsString" where
  "normalizeString u str = replaceWhitespace (toLowerCase u (trim str))"

text \<open>A string with no white space at either end.\<close>

definition trimmed :: "jsString \<Rightarrow> bool" where
  "trimmed s = (s = [] \<or> (\<not> isWhiteSpace (hd s) \<and> \<not> isWhiteSpace (last s)))"

text \<open>
  The words of a string: its maximal runs of code units that are not white space, in
  order. Joining the words with single spaces is what trimming a string and collapsing its
  runs of white space to one space comes to.
\<close>

function wordsOf :: "jsString \<Rightarrow> jsString list" where
  "wordsOf s =
     (case dropWhile isWhiteSpace s of
        [] \<Rightarrow> []
      | c # cs \<Rightarrow>
          takeWhile (\<lambda>x. \<not> isWhiteSpace x) (c # cs)
          # wordsOf (dropWhile (\<lambda>x. \<not> isWhiteSpace x) (c # cs)))"
  by pat_completeness auto
termination
proof (relation "measure length")
  fix s :: jsString and c cs
  assume a: "dropWhile isWhiteSpace s = c # cs"
  then have "\<not> isWhiteSpace c" using hd_dropWhile [of isWhiteSpace s] by simp
  then have "length (dropWhile (\<lambda>x. \<not> isWhiteSpace x) (c # cs)) \<le> length cs"
    by (simp add: length_dropWhile_le)
  moreover have "length (c # cs) \<le> length s"
    using a length_dropWhile_le [of isWhiteSpace s] by simp
  ultimately show "(dropWhile (\<lambda>x. \<not> isWhiteSpace x) (c # cs), s) \<in> measure length"
    by simp
qed simp

declare wordsOf.simps [simp del]

fun join :: "'a list \<Rightarrow> 'a list list \<Rightarrow> 'a list" where
  "join sep [] = []"
| "join sep [x] = x"
| "join sep (x # y # ys) = x @ sep @ join sep (y # ys)"

text \<open>
  What the proofs about \<open>toLowerCase\<close> use of the lowercase mapping, facts of the Unicode
  Character Database: the mapping of a code point is not empty; the code points it gives
  are code points, are their own lowercase mapping and are not the capital sigma; only
  white space maps to white space and only a surrogate to a surrogate; the space, the final
  sigma and every surrogate map to themselves.
\<close>

definition caseStable :: "Unicode \<Rightarrow> bool" where
  "caseStable u \<longleftrightarrow>
     (\<forall>c < 0x110000.
        lowercaseMapping u c \<noteq> []
        \<and> (\<forall>d \<in> set (lowercaseMapping u c).
              d < 0x110000 \<and> lowercaseMapping u d = [d] \<and> d \<noteq> 0x3A3
              \<and> (\<not> isWhiteSpace c \<longrightarrow> \<not> isWhiteSpace d)
              \<and> (\<not> isSurrogate c \<longrightarrow> \<not> isSurrogate d))
        \<and> (c = 0x20 \<or> isSurrogate c \<or> c = 0x3C2 \<longrightarrow> lowercaseMapping u c = [c]))"

text \<open>
  Notions of the proofs: a list of code points; a list of code points in which no high
  surrogate is followed by a low surrogate, which is what decoding a string gives; and a
  list of code points that the lowercase mapping leaves as they are.
\<close>

definition codePointList :: "nat list \<Rightarrow> bool" where
  "codePointList cps = list_all (\<lambda>c. c < 0x110000) cps"

fun noPair :: "nat list \<Rightarrow> bool" where
  "noPair [] = True"
| "noPair [c] = True"
| "noPair (c # d # cs) = (\<not> (isHighSurrogate c \<and> isLowSurrogate d) \<and> noPair (d # cs))"

definition lowercased :: "Unicode \<Rightarrow> nat list \<Rightarrow> bool" where
  "lowercased u cps =
     list_all (\<lambda>d. d < 0x110000 \<and> lowercaseMapping u d = [d] \<and> d \<noteq> 0x3A3) cps"

text \<open>\<^verbatim>\<open>s.includes(t)\<close>: \<open>t\<close> occurs in \<open>s\<close> as a contiguous substring.\<close>

fun stringIncludes :: "jsString \<Rightarrow> jsString \<Rightarrow> bool" where
  "stringIncludes [] t = (t = [])"
| "stringIncludes (c # s) t = (prefix t (c # s) \<or> stringIncludes s t)"

subsection \<open>The unique key\<close>

type_synonym byte = "8 word"

text \<open>
  The UTF-8 bytes of a sequence of code points, as \<^verbatim>\<open>Buffer.from\<close> writes them: one
  to four bytes for a code point, and the three bytes of U+FFFD for an unpaired surrogate.
\<close>

definition utf8Bytes :: "nat \<Rightarrow> nat list" where
  "utf8Bytes cp =
     (if cp < 0x80 then [cp]
      else if cp < 0x800 then [0xC0 + cp div 0x40, 0x80 + cp mod 0x40]
      else if isSurrogate cp then [0xEF, 0xBF, 0xBD]
      else if cp < 0x10000 then
        [0xE0 + cp div 0x1000, 0x80 + cp div 0x40 mod 0x40, 0x80 + cp mod 0x40]
      else
        [0xF0 + cp div 0x40000, 0x80 + cp div 0x1000 mod 0x40, 0x80 + cp div 0x40 mod 0x40,
         0x80 + cp mod 0x40])"

definition utf8 :: "nat list \<Rightarrow> byte list" where
  "utf8 cps = map of_nat (concat (map utf8Bytes cps))"

text \<open>\<^verbatim>\<open>Buffer.from(s)\<close>.\<close>

definition bufferFrom :: "jsString \<Rightarrow> byte list" where
  "bufferFrom s = utf8 (codePoints s)"

text \<open>A string with no unpaired surrogate.\<close>

definition wellFormed :: "jsString \<Rightarrow> bool" where
  "wellFormed s = (validString s \<and> list_all (\<lambda>cp. \<not> isSurrogate cp) (codePoints s))"

definition base64Alphabet :: jsString where
  "base64Alphabet =
     ascii ''ABCDEFGHIJKLMNOPQRSTUVWXYZabcdefghijklmnopqrstuvwxyz0123456789+/''"

definition base64Char :: "nat \<Rightarrow> nat" where
  "base64Char n = base64Alphabet ! n"

text \<open>\<^verbatim>\<open>buf.toString('base64')\<close>: three bytes give four characters, the last group is padded.\<close>

fun base64 :: "byte list \<Rightarrow> jsString" where
  "base64 [] = []"
| "base64 [a] =
     [base64Char (unat a div 4), base64Char (unat a mod 4 * 16), 0x3D, 0x3D]"
| "base64 [a, b] =
     [base64Char (unat a div 4), base64Char (unat a mod 4 * 16 + unat b div 16),
      base64Char (unat b mod 16 * 4), 0x3D]"
| "base64 (a # b # c # bs) =
     [base64Char (unat a div 4), base64Char (unat a mod 4 * 16 + unat b div 16),
      base64Char (unat b mod 16 * 4 + unat c div 64), base64Char (unat c mod 64)] @ base64 bs"

text \<open>
  \<^verbatim>\<open>createUniqueKey\<close>. What the template literal prints for the price, a JavaScript
  number, is a parameter, and so is the type of the price.
\<close>

definition normalizedData ::
  "Unicode \<Rightarrow> ('p \<Rightarrow> jsString) \<Rightarrow> jsString \<Rightarrow> 'p \<Rightarrow> jsString \<Rightarrow> jsString" where
  "normalizedData u numberToString seller price title =
     normalizeString u seller @ ascii ''-'' @ numberToString price @ ascii ''-''
     @ normalizeString u title"

definition createUniqueKey ::
  "Unicode \<Rightarrow> ('p \<Rightarrow> jsString) \<Rightarrow> jsString \<Rightarrow> 'p \<Rightarrow> jsString \<Rightarrow> jsString" where
  "createUniqueKey u numberToString seller price title =
     base64 (bufferFrom (normalizedData u numberToString seller price title))"

section \<open>Data model\<close>

text \<open>Dates are milliseconds since the epoch.\<close>

type_synonym date = nat

text \<open>
  \<^verbatim>\<open>VinylListing\<close>. The field \<^verbatim>\<open>id\<close> is \<open>id'\<close> here. A row of the table
  \<^verbatim>\<open>vinyl_listings\<close> has the same eighteen columns, so a row is a listing too.
\<close>

record VinylListing =
  id' :: jsString
  title :: jsString
  titleDisplay :: jsString
  artist :: jsString
  artistDisplay :: jsString
  price :: int
  currency :: jsString
  condition :: jsString
  shippingFee :: "int option"
  seller :: jsString
  sellerDisplay :: jsString
  url :: jsString
  source :: jsString
  dateFound :: date
  lastSeen :: date
  isShipsToIsrael :: bool
  uniqueKey :: jsString
  isActive :: bool

text \<open>\<^verbatim>\<open>PriceHistory\<close>; its field \<^verbatim>\<open>price\<close> is \<open>recordedPrice\<close> here.\<close>

record PriceHistory =
  listingId :: jsString
  recordedPrice :: int
  dateRecorded :: date

datatype PreferenceType = Artist | Genre | Album

text \<open>\<^verbatim>\<open>UserPreferenceRecord\<close>; \<^verbatim>\<open>type\<close> and \<^verbatim>\<open>value\<close> are \<open>prefType\<close> and \<open>prefValue\<close>.\<close>

record UserPreferenceRecord =
  prefType :: PreferenceType
  prefValue :: jsString
  createdAt :: date

section \<open>The database service\<close>

record Database =
  vinyl_listings :: "VinylListing list"
  price_history :: "PriceHistory list"
  user_preferences :: "UserPreferenceRecord list"

text \<open>
  What a call can throw: the rejection of a Discogs request, the constraint violation
  SQLite raises on an insert, and a message that Telegram does not deliver. The database is
  taken to answer every other call.
\<close>

datatype error = DiscogsApiError | ConstraintError | TelegramError

text \<open>
  \<^verbatim>\<open>insertListing\<close>. The table declares \<^verbatim>\<open>id\<close> its primary key and \<^verbatim>\<open>unique_key\<close>
  unique: the insert of a row that repeats either is rejected, and the promise rejects.
  The row takes every column from the listing, \<^verbatim>\<open>is_active\<close> included.
\<close>

definition insertListing :: "VinylListing \<Rightarrow> Database \<Rightarrow> error + Database" where
  "insertListing listing d =
     (if id' listing \<in> set (map id' (vinyl_listings d))
         \<or> uniqueKey listing \<in> set (map uniqueKey (vinyl_listings d))
      then Inl ConstraintError
      else Inr (d\<lparr>vinyl_listings := vinyl_listings d @ [listing]\<rparr>))"

text \<open>\<^verbatim>\<open>updateListingLastSeen\<close>: an update of the rows with the key, at the current time.\<close>

definition updateListingLastSeen :: "jsString \<Rightarrow> date \<Rightarrow> Database \<Rightarrow> Database" where
  "updateListingLastSeen key now d =
     d\<lparr>vinyl_listings :=
         map (\<lambda>r. if uniqueKey r = key then r\<lparr>lastSeen := now, isActive := True\<rparr> else r)
           (vinyl_listings d)\<rparr>"

text \<open>
  \<^verbatim>\<open>getExistingListing\<close>: the first row with the key, read back field by field; a
  shipping fee of zero is falsy and reads back as absent.
\<close>

definition rowToListing :: "VinylListing \<Rightarrow> VinylListing" where
  "rowToListing row =
     row\<lparr>shippingFee :=
           (case shippingFee row of None \<Rightarrow> None | Some f \<Rightarrow> if f = 0 then None else Some f)\<rparr>"

definition getExistingListing :: "jsString \<Rightarrow> Database \<Rightarrow> VinylListing option" where
  "getExistingListing key d =
     map_option rowToListing (find (\<lambda>r. uniqueKey r = key) (vinyl_listings d))"

definition addPriceHistory :: "PriceHistory \<Rightarrow> Database \<Rightarrow> Database" where
  "addPriceHistory priceHistory d = d\<lparr>price_history := price_history d @ [priceHistory]\<rparr>"

definition getUserPreferences :: "Database \<Rightarrow> UserPreferenceRecord list" where
  "getUserPreferences d = user_preferences d"

section \<open>The Discogs service\<close>

text \<open>
  The network is a parameter: \<open>searchReleases\<close> gives the ids of the releases found for a
  query or fails when the request is rejected after its retries, and
  \<open>getMarketplaceListings\<close> gives the listings of one release (that method catches every
  error itself and answers with a list).
\<close>

record Discogs =
  searchReleases :: "jsString \<Rightarrow> error + nat list"
  getMarketplaceListings :: "nat \<Rightarrow> VinylListing list"

text \<open>
  \<^verbatim>\<open>searchForArtist\<close>: the listings of the first five releases; the \<^verbatim>\<open>catch\<close> around
  the whole body turns a failed search into the empty list.
\<close>

definition searchForArtist :: "Discogs \<Rightarrow> jsString \<Rightarrow> VinylListing list" where
  "searchForArtist api artistName =
     (case searchReleases api artistName of
        Inl e \<Rightarrow> []
      | Inr releases \<Rightarrow> concat (map (getMarketplaceListings api) (take 5 releases)))"

text \<open>
  \<^verbatim>\<open>convertToVinylListing\<close>, on the fields of a marketplace listing it reads, with the
  fresh UUID and the current time as arguments.
\<close>

record DiscogsMarketplaceListing =
  uri :: jsString
  listingCondition :: jsString
  priceValue :: int
  priceCurrency :: jsString
  shippingPrice :: "int option"
  sellerUsername :: jsString
  releaseTitle :: jsString
  artistNames :: "jsString list"

definition convertToVinylListing ::
  "Unicode \<Rightarrow> (int \<Rightarrow> jsString) \<Rightarrow> jsString \<Rightarrow> date \<Rightarrow> DiscogsMarketplaceListing
     \<Rightarrow> VinylListing" where
  "convertToVinylListing u numberToString uuid now listing =
     (let artistName = join (ascii '', '') (artistNames listing)
      in \<lparr>id' = uuid,
          title = normalizeString u (releaseTitle listing),
          titleDisplay = releaseTitle listing,
          artist = normalizeString u artistName,
          artistDisplay = artistName,
          price = priceValue listing,
          currency = priceCurrency listing,
          condition = listingCondition listing,
          shippingFee = shippingPrice listing,
          seller = normalizeString u (sellerUsername listing),
          sellerDisplay = sellerUsername listing,
          url = ascii ''https://www.discogs.com'' @ uri listing,
          source = ascii ''discogs'',
          dateFound = now,
          lastSeen = now,
          isShipsToIsrael = True,
          uniqueKey = createUniqueKey u numberToString (sellerUsername listing) (priceValue listing)
              (releaseTitle listing),
          isActive = True\<rparr>)"

section \<open>The scraper\<close>

text \<open>
  The calls the scraper makes to the Telegram service, with their arguments. Rendering the
  messages belongs to that service; whether the bot delivers the messages of a batch is a
  parameter.
\<close>

datatype TelegramCall =
  is_error: ErrorNotification jsString jsString
| is_batch: BatchNotification "VinylListing list"

record Telegram =
  batchDelivered :: "VinylListing list \<Rightarrow> bool"

text \<open>
  The state a scraping session runs on: the database, the calls made to Telegram so far,
  the artists searched on Discogs so far, and the clock that \<^verbatim>\<open>new Date()\<close> reads.
\<close>

record World =
  db :: Database
  telegramCalls :: "TelegramCall list"
  searches :: "jsString list"
  clock :: date

text \<open>\<^verbatim>\<open>sendErrorNotification\<close> catches a failed delivery itself and never throws.\<close>

definition sendErrorNotification :: "jsString \<Rightarrow> jsString \<Rightarrow> World \<Rightarrow> World" where
  "sendErrorNotification err src w =
     w\<lparr>telegramCalls := telegramCalls w @ [ErrorNotification err src]\<rparr>"

text \<open>
  \<^verbatim>\<open>sendBatchNotification\<close> returns at once on the empty list, and throws again what
  a failed delivery throws.
\<close>

definition sendBatchNotification ::
  "Telegram \<Rightarrow> VinylListing list \<Rightarrow> World \<Rightarrow> World \<times> error option" where
  "sendBatchNotification telegram listings w =
     (w\<lparr>telegramCalls := telegramCalls w @ [BatchNotification listings]\<rparr>,
      if length listings = 0 then None
      else if batchDelivered telegram listings then None else Some TelegramError)"

text \<open>\<^verbatim>\<open>isRelevantListing\<close>.\<close>

definition isRelevantListing :: "Unicode \<Rightarrow> VinylListing \<Rightarrow> UserPreferenceRecord list \<Rightarrow> bool" where
  "isRelevantListing u listing preferences =
     (let normalizedArtist = normalizeString u (artist listing);
          normalizedTitle = normalizeString u (title listing);
          artistMatches =
            list_ex (\<lambda>p. stringIncludes normalizedArtist (normalizeString u (prefValue p)))
              (filter (\<lambda>p. prefType p = Artist) preferences);
          albumMatches =
            list_ex (\<lambda>p. stringIncludes normalizedTitle (normalizeString u (prefValue p)))
              (filter (\<lambda>p. prefType p = Album) preferences)
      in artistMatches \<or> albumMatches)"

text \<open>
  The body of the loop over the listings of one artist, on the database and the list
  \<^verbatim>\<open>newListings\<close>. Only the insert can throw, before anything is written.
\<close>

definition processListing ::
  "Unicode \<Rightarrow> UserPreferenceRecord list \<Rightarrow> date \<Rightarrow> VinylListing \<Rightarrow> Database \<times> VinylListing list
     \<Rightarrow> error + Database \<times> VinylListing list" where
  "processListing u preferences now listing s =
     (case s of (d, newListings) \<Rightarrow>
        if isRelevantListing u listing preferences then
          (case getExistingListing (uniqueKey listing) d of
             None \<Rightarrow>
               (case insertListing listing d of
                  Inl e \<Rightarrow> Inl e
                | Inr d1 \<Rightarrow>
                    Inr (addPriceHistory
                           \<lparr>listingId = id' listing, recordedPrice = price listing,
                            dateRecorded = now\<rparr> d1,
                         newListings @ [listing]))
           | Some existingListing \<Rightarrow>
               (let d1 = updateListingLastSeen (uniqueKey listing) now d
                in if price existingListing \<noteq> price listing
                   then Inr (addPriceHistory
                               \<lparr>listingId = id' existingListing, recordedPrice = price listing,
                                dateRecorded = now\<rparr> d1,
                             newListings)
                   else Inr (d1, newListings)))
        else Inr s)"

text \<open>
  The loop over the listings: it stops at the first throw and keeps what was written
  before it.
\<close>

fun processListings ::
  "Unicode \<Rightarrow> UserPreferenceRecord list \<Rightarrow> date \<Rightarrow> VinylListing list \<Rightarrow> Database \<times> VinylListing list
     \<Rightarrow> (Database \<times> VinylListing list) \<times> error option" where
  "processListings u preferences now [] s = (s, None)"
| "processListings u preferences now (listing # listings) s =
     (case processListing u preferences now listing s of
        Inl e \<Rightarrow> (s, Some e)
      | Inr s1 \<Rightarrow> processListings u preferences now listings s1)"

text \<open>
  One turn of the loop over the artist preferences: the search, the loop over its
  listings and the delay, or the \<^verbatim>\<open>catch\<close> that reports the error to Telegram.
\<close>

definition scrapeArtist ::
  "Unicode \<Rightarrow> Discogs \<Rightarrow> nat \<Rightarrow> UserPreferenceRecord list \<Rightarrow> UserPreferenceRecord
     \<Rightarrow> World \<times> VinylListing list \<Rightarrow> World \<times> VinylListing list" where
  "scrapeArtist u api delayBetweenRequests preferences artistPref s =
     (case s of (w, newListings) \<Rightarrow>
        let listings = searchForArtist api (prefValue artistPref);
            w1 = w\<lparr>searches := searches w @ [prefValue artistPref]\<rparr>
        in case processListings u preferences (clock w) listings (db w, newListings) of
             ((d1, newListings1), None) \<Rightarrow>
               (w1\<lparr>db := d1, clock := clock w + delayBetweenRequests\<rparr>, newListings1)
           | ((d1, newListings1), Some e) \<Rightarrow>
               (sendErrorNotification (ascii ''Failed to scrape artist: '' @ prefValue artistPref)
                  (ascii ''discogs'') (w1\<lparr>db := d1\<rparr>),
                newListings1))"

fun scrapeArtists ::
  "Unicode \<Rightarrow> Discogs \<Rightarrow> nat \<Rightarrow> UserPreferenceRecord list \<Rightarrow> UserPreferenceRecord list
     \<Rightarrow> World \<times> VinylListing list \<Rightarrow> World \<times> VinylListing list" where
  "scrapeArtists u api delayBetweenRequests preferences [] s = s"
| "scrapeArtists u api delayBetweenRequests preferences (artistPref # artistPrefs) s =
     scrapeArtists u api delayBetweenRequests preferences artistPrefs
       (scrapeArtist u api delayBetweenRequests preferences artistPref s)"

text \<open>The session up to the end of the loop: the state reached and \<^verbatim>\<open>newListings\<close>.\<close>

definition scrapeLoop :: "Unicode \<Rightarrow> Discogs \<Rightarrow> nat \<Rightarrow> World \<Rightarrow> World \<times> VinylListing list" where
  "scrapeLoop u api delayBetweenRequests w =
     (let preferences = getUserPreferences (db w);
          artistPrefs = filter (\<lambda>p. prefType p = Artist) preferences
      in scrapeArtists u api delayBetweenRequests preferences artistPrefs (w, []))"

text \<open>
  \<^verbatim>\<open>scrapeVinyl\<close>: the loop, the batch notification of a non-empty list of new
  listings, and the outer \<^verbatim>\<open>catch\<close>, which a failed delivery of the batch reaches.
\<close>

definition scrapeVinyl :: "Unicode \<Rightarrow> Discogs \<Rightarrow> Telegram \<Rightarrow> nat \<Rightarrow> World \<Rightarrow> World" where
  "scrapeVinyl u api telegram delayBetweenRequests w =
     (case scrapeLoop u api delayBetweenRequests w of
        (w1, newListings) \<Rightarrow>
          if length newListings > 0 then
            (case sendBatchNotification telegram newListings w1 of
               (w2, None) \<Rightarrow> w2
             | (w2, Some e) \<Rightarrow>
                 sendErrorNotification (ascii ''General scraping error occurred'')
                   (ascii ''system'') w2)
          else w1)"

text \<open>
  What a run of the loops has gathered: \<open>new\<close> is a subsequence of the candidates, the keys
  of the rows of \<open>d1\<close> are those of \<open>d\<close> followed by those of \<open>new\<close>, and the keys of
  \<open>new\<close> are distinct and none is a key of \<open>d\<close>.
\<close>

definition gathered :: "VinylListing list \<Rightarrow> Database \<Rightarrow> Database \<Rightarrow> VinylListing list \<Rightarrow> bool" where
  "gathered candidates d d1 new \<longleftrightarrow>
     map uniqueKey (vinyl_listings d1) = map uniqueKey (vinyl_listings d) @ map uniqueKey new
     \<and> subseq new candidates
     \<and> distinct (map uniqueKey new)
     \<and> set (map uniqueKey new) \<inter> set (map uniqueKey (vinyl_listings d)) = {}"

section \<open>Example data\<close>

text \<open>
  A fragment of the Unicode Character Database: the lowercase mappings of the capitals of
  Basic Latin and of Greek and of U+0130 (two code points), every other code point mapping
  to itself; the letters of Basic Latin and of Greek as the cased letters, and the
  apostrophe and the full stop as the case-ignorable characters, of Final_Sigma.
\<close>

definition exampleCased :: "nat \<Rightarrow> bool" where
  "exampleCased c =
     ((0x41 \<le> c \<and> c \<le> 0x5A) \<or> (0x61 \<le> c \<and> c \<le> 0x7A) \<or> (0x391 \<le> c \<and> c \<le> 0x3A1)
      \<or> (0x3A3 \<le> c \<and> c \<le> 0x3A9) \<or> (0x3B1 \<le> c \<and> c \<le> 0x3C9))"

definition exampleCaseIgnorable :: "nat \<Rightarrow> bool" where
  "exampleCaseIgnorable c = (c = 0x27 \<or> c = 0x2E)"

text \<open>A cased letter comes next, after case-ignorable characters only.\<close>

fun casedNext :: "nat list \<Rightarrow> bool" where
  "casedNext [] = False"
| "casedNext (c # cs) = (exampleCased c \<or> (exampleCaseIgnorable c \<and> casedNext cs))"

definition exampleUnicode :: Unicode where
  "exampleUnicode =
     \<lparr>lowercaseMapping =
        (\<lambda>c. if (0x41 \<le> c \<and> c \<le> 0x5A) \<or> (0x391 \<le> c \<and> c \<le> 0x3A1) \<or> (0x3A3 \<le> c \<and> c \<le> 0x3A9)
             then [c + 0x20]
             else if c = 0x130 then [0x69, 0x307] else [c]),
      finalSigma = (\<lambda>preceding following. casedNext preceding \<and> \<not> casedNext following)\<rparr>"

text \<open>
  A string with capitals of two alphabets, a capital sigma in final and one in medial
  position, a capital whose lowercase mapping is two code points, white space of several
  kinds, a surrogate pair and an unpaired surrogate.
\<close>

definition mixedCase :: jsString where
  "mixedCase =
     [0x20, 0x391, 0x3A3, 0x3000, 0x9, 0x130, 0x3A3, 0x392, 0xD83D, 0xDE00, 0xD800, 0xA0]"

text \<open>
  The decimal numeral of an integer, with a minus sign when negative: what the template
  literal prints for a number that is an integer of magnitude at most \<open>2^53\<close>.
\<close>

function digits :: "nat \<Rightarrow> jsString" where
  "digits n = (if n < 10 then [48 + n] else digits (n div 10) @ [48 + n mod 10])"
  by pat_completeness auto
termination
  by (relation "measure id") auto

declare digits.simps [simp del]

definition decimal :: "int \<Rightarrow> jsString" where
  "decimal n = (if n < 0 then 0x2D # digits (nat (- n)) else digits (nat n))"

text \<open>
  The end-to-end scenario: the artist preference \<open>pink floyd\<close> and the listing of
  \<open>The Wall\<close> by \<open>Pink Floyd\<close> that the seller \<open>RareVinyl\<close> offers at 50, as the
  Discogs service builds it; a second sighting of the same offer; an album and a genre
  preference; a Discogs that finds this one listing, and one whose searches all fail.
\<close>

definition theWall :: VinylListing where
  "theWall =
     convertToVinylListing exampleUnicode decimal (ascii ''uuid-1'') 1000
       \<lparr>uri = ascii ''/sell/item/1'', listingCondition = ascii ''Near Mint (NM)'', priceValue = 50,
        priceCurrency = ascii ''USD'', shippingPrice = None, sellerUsername = ascii ''RareVinyl'',
        releaseTitle = ascii ''The Wall'', artistNames = [ascii ''Pink Floyd'']\<rparr>"

definition theWallAgain :: VinylListing where
  "theWallAgain =
     convertToVinylListing exampleUnicode decimal (ascii ''uuid-2'') 2000
       \<lparr>uri = ascii ''/sell/item/1'', listingCondition = ascii ''Near Mint (NM)'', priceValue = 50,
        priceCurrency = ascii ''USD'', shippingPrice = None, sellerUsername = ascii ''RareVinyl'',
        releaseTitle = ascii ''The Wall'', artistNames = [ascii ''Pink Floyd'']\<rparr>"

definition pinkFloyd :: UserPreferenceRecord where
  "pinkFloyd = \<lparr>prefType = Artist, prefValue = ascii ''pink floyd'', createdAt = 0\<rparr>"

definition wallAlbum :: UserPreferenceRecord where
  "wallAlbum = \<lparr>prefType = Album, prefValue = ascii ''the wall'', createdAt = 0\<rparr>"

definition progRock :: UserPreferenceRecord where
  "progRock = \<lparr>prefType = Genre, prefValue = ascii ''pink floyd'', createdAt = 0\<rparr>"

definition emptyDatabase :: "UserPreferenceRecord list \<Rightarrow> Database" where
  "emptyDatabase preferences =
     \<lparr>vinyl_listings = [], price_history = [], user_preferences = preferences\<rparr>"

definition startWorld :: "UserPreferenceRecord list \<Rightarrow> World" where
  "startWorld preferences =
     \<lparr>db = emptyDatabase preferences, telegramCalls = [], searches = [], clock = 1000\<rparr>"

definition oneListing :: Discogs where
  "oneListing =
     \<lparr>searchReleases = (\<lambda>q. if q = ascii ''pink floyd'' then Inr [1] else Inr []),
      getMarketplaceListings = (\<lambda>r. if r = 1 then [theWall] else [])\<rparr>"

definition offline :: Discogs where
  "offline =
     \<lparr>searchReleases = (\<lambda>q. Inl DiscogsApiError), getMarketplaceListings = (\<lambda>r. [])\<rparr>"

text \<open>A bot that delivers every batch, and one that delivers none.\<close>

definition delivering :: Telegram where
  "delivering = \<lparr>batchDelivered = (\<lambda>listings. True)\<rparr>"

definition unreachable :: Telegram where
  "unreachable = \<lparr>batchDelivered = (\<lambda>listings. False)\<rparr>"

text \<open>
  A second artist preference; a Discogs whose search for \<open>pink floyd\<close> fails while every
  other search finds the listing; and a state whose store holds a row with the id of the
  listing under another key, so that the insert of the listing is rejected.
\<close>

definition queen :: UserPreferenceRecord where
  "queen = \<lparr>prefType = Artist, prefValue = ascii ''queen'', createdAt = 0\<rparr>"

definition flaky :: Discogs where
  "flaky =
     \<lparr>searchReleases = (\<lambda>q. if q = ascii ''pink floyd'' then Inl DiscogsApiError else Inr [1]),
      getMarketplaceListings = (\<lambda>r. if r = 1 then [theWall] else [])\<rparr>"

definition staleWorld :: World where
  "staleWorld =
     \<lparr>db = \<lparr>vinyl_listings = [theWall\<lparr>uniqueKey := ascii ''stale''\<rparr>], price_history = [],
             user_preferences = [pinkFloyd]\<rparr>,
      telegramCalls = [], searches = [], clock = 1000\<rparr>"

section \<open>Properties of the normaliser\<close>

lemma isWhiteSpace_space: "isWhiteSpace 0x20"
  by (simp add: isWhiteSpace_def)

lemma isWhiteSpace_lt: "isWhiteSpace c \<Longrightarrow> c < 0xD800 \<or> (0xDFFF < c \<and> c < 0x10000)"
  by (auto simp add: isWhiteSpace_def)

lemma last_dropWhile_ne: "dropWhile P xs \<noteq> [] \<Longrightarrow> last (dropWhile P xs) = last xs"
  by (metis last_appendR takeWhile_dropWhile_id)

lemma dropWhile_last_ne: "xs \<noteq> [] \<Longrightarrow> \<not> P (last xs) \<Longrightarrow> dropWhile P xs \<noteq> []"
  using last_in_set by (fastforce simp: dropWhile_eq_Nil_conv)

lemma dropWhile_hd_id: "xs \<noteq> [] \<Longrightarrow> \<not> P (hd xs) \<Longrightarrow> dropWhile P xs = xs"
  by (cases xs) simp_all

lemma trim_trimmed: "trimmed s \<Longrightarrow> trim s = s"
  by (cases "s = []") (simp_all add: trimmed_def trim_def dropWhile_hd_id hd_rev)

lemma trimmed_trim: "trimmed (trim s)"
proof (cases "dropWhile isWhiteSpace s = []")
  case True
  then show ?thesis by (simp add: trimmed_def trim_def del: dropWhile_eq_Nil_conv)
next
  case False
  let ?t = "dropWhile isWhiteSpace s"
  let ?u = "dropWhile isWhiteSpace (rev ?t)"
  have h: "\<not> isWhiteSpace (hd ?t)" using False by (rule hd_dropWhile)
  then have ne: "?u \<noteq> []" using False
    by (intro dropWhile_last_ne) (simp_all add: last_rev del: dropWhile_eq_Nil_conv)
  then have "\<not> isWhiteSpace (hd ?u)" by (rule hd_dropWhile)
  moreover have "last ?u = hd ?t" using ne
    by (simp add: last_dropWhile_ne last_rev del: dropWhile_eq_Nil_conv)
  ultimately have "\<not> isWhiteSpace (last (rev ?u)) \<and> \<not> isWhiteSpace (hd (rev ?u))"
    using h by (simp add: last_rev hd_rev del: dropWhile_eq_Nil_conv)
  then show ?thesis unfolding trimmed_def trim_def by blast
qed

lemma trim_decomposition:
  "\<exists>l r. s = l @ trim s @ r \<and> list_all isWhiteSpace l \<and> list_all isWhiteSpace r"
proof -
  let ?t = "dropWhile isWhiteSpace s"
  have "rev ?t = takeWhile isWhiteSpace (rev ?t) @ dropWhile isWhiteSpace (rev ?t)" by simp
  then have "rev (rev ?t) = rev (takeWhile isWhiteSpace (rev ?t) @ dropWhile isWhiteSpace (rev ?t))"
    by (simp only:)
  then have "?t = trim s @ rev (takeWhile isWhiteSpace (rev ?t))"
    by (simp only: rev_rev_ident rev_append trim_def)
  moreover have "s = takeWhile isWhiteSpace s @ ?t" by simp
  ultimately have "s = takeWhile isWhiteSpace s @ trim s @ rev (takeWhile isWhiteSpace (rev ?t))"
    by simp
  moreover have "list_all isWhiteSpace (takeWhile isWhiteSpace s)"
    by (simp add: list_all_iff) (meson set_takeWhileD)
  moreover have "list_all isWhiteSpace (rev (takeWhile isWhiteSpace (rev ?t)))"
    by (simp add: list_all_iff) (meson set_takeWhileD)
  ultimately show ?thesis by blast
qed

lemma set_trim: "set (trim s) \<subseteq> set s"
  by (auto simp add: trim_def dest!: set_dropWhileD)

lemma replaceWhitespace_eq_Nil: "replaceWhitespace s = [] \<longleftrightarrow> s = []"
  by (cases s) simp_all

lemma hd_replaceWhitespace:
  "s \<noteq> [] \<Longrightarrow> isWhiteSpace (hd (replaceWhitespace s)) = isWhiteSpace (hd s)"
  by (cases s) (simp_all add: isWhiteSpace_space)

lemma last_replaceWhitespace:
  "s \<noteq> [] \<Longrightarrow> \<not> isWhiteSpace (last s) \<Longrightarrow> \<not> isWhiteSpace (last (replaceWhitespace s))"
proof (induction s rule: replaceWhitespace.induct)
  case 1
  then show ?case by simp
next
  case (2 c cs)
  show ?case
  proof (cases "isWhiteSpace c")
    case True
    with "2.prems" have cs: "cs \<noteq> []" "\<not> isWhiteSpace (last cs)" by (auto split: if_splits)
    then have ne: "dropWhile isWhiteSpace cs \<noteq> []" by (rule dropWhile_last_ne)
    then have "\<not> isWhiteSpace (last (dropWhile isWhiteSpace cs))"
      using cs by (simp add: last_dropWhile_ne)
    with "2.IH"(1) True ne show ?thesis
      by (simp add: replaceWhitespace_eq_Nil del: dropWhile_eq_Nil_conv)
  next
    case False
    with "2.prems" "2.IH"(2) show ?thesis
      by (cases "cs = []") (simp_all add: replaceWhitespace_eq_Nil)
  qed
qed

lemma trimmed_replaceWhitespace: "trimmed s \<Longrightarrow> trimmed (replaceWhitespace s)"
  unfolding trimmed_def
  using hd_replaceWhitespace last_replaceWhitespace replaceWhitespace_eq_Nil by blast

lemma dropWhile_replaceWhitespace:
  "dropWhile isWhiteSpace (replaceWhitespace (dropWhile isWhiteSpace s)) =
   replaceWhitespace (dropWhile isWhiteSpace s)"
proof (cases "dropWhile isWhiteSpace s = []")
  case True
  then show ?thesis by (simp del: dropWhile_eq_Nil_conv)
next
  case False
  then have "\<not> isWhiteSpace (hd (dropWhile isWhiteSpace s))" by (rule hd_dropWhile)
  with False show ?thesis
    by (simp add: dropWhile_hd_id hd_replaceWhitespace replaceWhitespace_eq_Nil
          del: dropWhile_eq_Nil_conv)
qed

lemma replaceWhitespace_idem: "replaceWhitespace (replaceWhitespace s) = replaceWhitespace s"
  by (induction s rule: replaceWhitespace.induct)
     (simp_all add: isWhiteSpace_space dropWhile_replaceWhitespace)

lemma set_replaceWhitespace: "set (replaceWhitespace s) \<subseteq> insert 0x20 (set s)"
proof (induction s rule: replaceWhitespace.induct)
  case 1
  then show ?case by simp
next
  case (2 c cs)
  show ?case
  proof (cases "isWhiteSpace c")
    case True
    with "2.IH"(1) have "set (replaceWhitespace (dropWhile isWhiteSpace cs))
                         \<subseteq> insert 0x20 (set (dropWhile isWhiteSpace cs))" by simp
    moreover have "set (dropWhile isWhiteSpace cs) \<subseteq> set cs" using set_dropWhileD by fastforce
    ultimately show ?thesis using True by auto
  next
    case False
    with "2.IH"(2) show ?thesis by auto
  qed
qed

lemma replaceWhitespace_ws: "c \<in> set (replaceWhitespace s) \<Longrightarrow> isWhiteSpace c \<Longrightarrow> c = 0x20"
proof (induction s rule: replaceWhitespace.induct)
  case 1
  then show ?case by simp
next
  case (2 c' cs)
  then show ?case by (cases "isWhiteSpace c'") auto
qed

lemma replaceWhitespace_single:
  "\<not> sublist [0x20, 0x20] (replaceWhitespace s)"
proof (induction s rule: replaceWhitespace.induct)
  case 1
  then show ?case by simp
next
  case (2 c cs)
  show ?case
  proof (cases "isWhiteSpace c")
    case True
    let ?r = "replaceWhitespace (dropWhile isWhiteSpace cs)"
    have "\<not> prefix [0x20] ?r"
    proof
      assume "prefix [0x20] ?r"
      then have ne: "?r \<noteq> []" and h: "hd ?r = 0x20" by (auto simp: prefix_def)
      from ne have ne': "dropWhile isWhiteSpace cs \<noteq> []"
        by (simp only: replaceWhitespace_eq_Nil not_False_eq_True)
      then have "\<not> isWhiteSpace (hd (dropWhile isWhiteSpace cs))" by (rule hd_dropWhile)
      with ne' h show False using hd_replaceWhitespace isWhiteSpace_space by metis
    qed
    with True "2.IH"(1) show ?thesis by (simp add: sublist_Cons_right)
  next
    case False
    with "2.IH"(2) show ?thesis
      by (auto simp add: sublist_Cons_right isWhiteSpace_space)
  qed
qed

subsection \<open>Words\<close>

lemma wordsOf_Nil: "wordsOf [] = []"
  by (simp add: wordsOf.simps)

lemma wordsOf_words:
  "dropWhile isWhiteSpace s = c # cs \<Longrightarrow>
   wordsOf s = takeWhile (\<lambda>x. \<not> isWhiteSpace x) (c # cs)
               # wordsOf (dropWhile (\<lambda>x. \<not> isWhiteSpace x) (c # cs))"
  by (subst wordsOf.simps) simp

lemma wordsOf_none: "dropWhile isWhiteSpace s = [] \<Longrightarrow> wordsOf s = []"
  by (subst wordsOf.simps) (simp del: dropWhile_eq_Nil_conv)

lemma replaceWhitespace_skip:
  "s \<noteq> [] \<Longrightarrow>
   replaceWhitespace s =
     (if isWhiteSpace (hd s) then [0x20] else []) @ replaceWhitespace (dropWhile isWhiteSpace s)"
  by (cases s) simp_all

lemma replaceWhitespace_word:
  "list_all (\<lambda>x. \<not> isWhiteSpace x) w \<Longrightarrow> replaceWhitespace (w @ r) = w @ replaceWhitespace r"
  by (induction w) simp_all

lemma replaceWhitespace_words:
  "s \<noteq> [] \<Longrightarrow> \<not> isWhiteSpace (last s) \<Longrightarrow>
   replaceWhitespace s = (if isWhiteSpace (hd s) then [0x20] else []) @ join [0x20] (wordsOf s)"
proof (induction s rule: wordsOf.induct)
  case (1 s)
  from "1.prems" have "dropWhile isWhiteSpace s \<noteq> []" by (rule dropWhile_last_ne)
  then obtain c cs where d: "dropWhile isWhiteSpace s = c # cs"
    by (cases "dropWhile isWhiteSpace s") auto
  define w where "w = takeWhile (\<lambda>x. \<not> isWhiteSpace x) (c # cs)"
  define rest where "rest = dropWhile (\<lambda>x. \<not> isWhiteSpace x) (c # cs)"
  define pre :: "nat list" where "pre = (if isWhiteSpace (hd s) then [0x20] else [])"
  have split: "c # cs = w @ rest" unfolding w_def rest_def by (simp only: takeWhile_dropWhile_id)
  have IH: "rest \<noteq> [] \<Longrightarrow> \<not> isWhiteSpace (last rest) \<Longrightarrow>
            replaceWhitespace rest =
              (if isWhiteSpace (hd rest) then [0x20] else []) @ join [0x20] (wordsOf rest)"
    using "1.IH" [OF d] unfolding rest_def .
  have lastd: "last (c # cs) = last s" using d last_dropWhile_ne [of isWhiteSpace s] by simp
  have w: "list_all (\<lambda>x. \<not> isWhiteSpace x) w"
    unfolding list_all_iff w_def using set_takeWhileD by fast
  have rd: "replaceWhitespace (c # cs) = w @ replaceWhitespace rest"
    by (simp only: split replaceWhitespace_word [OF w])
  have words: "wordsOf s = w # wordsOf rest"
    using wordsOf_words [OF d] unfolding w_def rest_def .
  have "replaceWhitespace s = pre @ replaceWhitespace (dropWhile isWhiteSpace s)"
    unfolding pre_def using "1.prems"(1) by (rule replaceWhitespace_skip)
  then have skip: "replaceWhitespace s = pre @ w @ replaceWhitespace rest"
    by (simp only: d rd)
  show ?case
  proof (cases "rest = []")
    case True
    have "replaceWhitespace s = pre @ w" by (simp only: skip True replaceWhitespace.simps append_Nil2)
    moreover have "join [0x20] (wordsOf s) = w" by (simp only: words True wordsOf_Nil join.simps)
    ultimately show ?thesis unfolding pre_def by (simp only:)
  next
    case False
    then have h: "isWhiteSpace (hd rest)"
      unfolding rest_def using hd_dropWhile [of "\<lambda>x. \<not> isWhiteSpace x" "c # cs"] by blast
    have "last rest = last (c # cs)"
      using False unfolding rest_def by (rule last_dropWhile_ne)
    with lastd "1.prems"(2) have nl: "\<not> isWhiteSpace (last rest)" by metis
    have "replaceWhitespace rest =
          (if isWhiteSpace (hd rest) then [0x20] else []) @ join [0x20] (wordsOf rest)"
      using False nl by (rule IH)
    with h have r: "replaceWhitespace rest = 0x20 # join [0x20] (wordsOf rest)" by simp
    have "dropWhile isWhiteSpace rest \<noteq> []" using False nl by (rule dropWhile_last_ne)
    then obtain e es where "dropWhile isWhiteSpace rest = e # es"
      by (cases "dropWhile isWhiteSpace rest") auto
    then have "wordsOf rest \<noteq> []" using wordsOf_words [of rest e es] by simp
    then obtain v vs where "wordsOf rest = v # vs" by (cases "wordsOf rest") auto
    then have "join [0x20] (w # wordsOf rest) = w @ 0x20 # join [0x20] (wordsOf rest)" by simp
    then have "join [0x20] (wordsOf s) = w @ replaceWhitespace rest" by (simp only: words r)
    then show ?thesis unfolding pre_def [symmetric] by (simp only: skip)
  qed
qed

lemma replaceWhitespace_trimmed:
  "trimmed s \<Longrightarrow> replaceWhitespace s = join [0x20] (wordsOf s)"
proof (cases "s = []")
  case True
  then show ?thesis by (simp add: wordsOf_Nil)
next
  case False
  assume "trimmed s"
  with False have "\<not> isWhiteSpace (hd s)" "\<not> isWhiteSpace (last s)" by (simp_all add: trimmed_def)
  with False show ?thesis using replaceWhitespace_words [of s] by simp
qed

lemma wordsOf_word:
  "w \<in> set (wordsOf s) \<Longrightarrow> w \<noteq> [] \<and> list_all (\<lambda>x. \<not> isWhiteSpace x) w"
proof (induction s rule: wordsOf.induct)
  case (1 s)
  show ?case
  proof (cases "dropWhile isWhiteSpace s")
    case Nil
    then have "wordsOf s = []" by (rule wordsOf_none)
    with "1.prems" show ?thesis by simp
  next
    case (Cons c cs)
    let ?w = "takeWhile (\<lambda>x. \<not> isWhiteSpace x) (c # cs)"
    have "\<not> isWhiteSpace c" using hd_dropWhile [of isWhiteSpace s] Cons by simp
    then have "?w \<noteq> []" by simp
    moreover have "list_all (\<lambda>x. \<not> isWhiteSpace x) ?w"
      unfolding list_all_iff using set_takeWhileD by fast
    moreover have "wordsOf s = ?w # wordsOf (dropWhile (\<lambda>x. \<not> isWhiteSpace x) (c # cs))"
      using Cons by (rule wordsOf_words)
    ultimately show ?thesis using "1.prems" "1.IH" [OF Cons] by auto
  qed
qed

lemma filter_dropWhile_ws:
  "filter (\<lambda>c. \<not> isWhiteSpace c) (dropWhile isWhiteSpace s) = filter (\<lambda>c. \<not> isWhiteSpace c) s"
  by (induction s) simp_all

lemma filter_takeWhile_word:
  "filter (\<lambda>c. \<not> isWhiteSpace c) (takeWhile (\<lambda>c. \<not> isWhiteSpace c) s)
   = takeWhile (\<lambda>c. \<not> isWhiteSpace c) s"
  by (induction s) simp_all

lemma concat_wordsOf: "concat (wordsOf s) = filter (\<lambda>c. \<not> isWhiteSpace c) s"
proof (induction s rule: wordsOf.induct)
  case (1 s)
  show ?case
  proof (cases "dropWhile isWhiteSpace s")
    case Nil
    then have "wordsOf s = []" by (rule wordsOf_none)
    moreover have "filter (\<lambda>c. \<not> isWhiteSpace c) s = []"
      using Nil filter_dropWhile_ws [of s] by simp
    ultimately show ?thesis by simp
  next
    case (Cons c cs)
    let ?w = "takeWhile (\<lambda>x. \<not> isWhiteSpace x) (c # cs)"
    let ?rest = "dropWhile (\<lambda>x. \<not> isWhiteSpace x) (c # cs)"
    have "wordsOf s = ?w # wordsOf ?rest" using Cons by (rule wordsOf_words)
    then have "concat (wordsOf s) = ?w @ filter (\<lambda>c. \<not> isWhiteSpace c) ?rest"
      using "1.IH" [OF Cons] by simp
    also have "\<dots> = filter (\<lambda>c. \<not> isWhiteSpace c) (?w @ ?rest)"
      by (simp only: filter_append filter_takeWhile_word)
    also have "\<dots> = filter (\<lambda>c. \<not> isWhiteSpace c) (c # cs)" by (simp only: takeWhile_dropWhile_id)
    also have "\<dots> = filter (\<lambda>c. \<not> isWhiteSpace c) s"
      using filter_dropWhile_ws [of s] Cons by simp
    finally show ?thesis .
  qed
qed

subsection \<open>UTF-16\<close>

lemma isWhiteSpace_not_surrogate:
  "isWhiteSpace c \<Longrightarrow> \<not> isHighSurrogate c \<and> \<not> isLowSurrogate c \<and> \<not> isSurrogate c \<and> c < 0x10000"
  using isWhiteSpace_lt [of c]
  by (auto simp add: isHighSurrogate_def isLowSurrogate_def isSurrogate_def)

lemma isSurrogate_iff: "isSurrogate c \<longleftrightarrow> isHighSurrogate c \<or> isLowSurrogate c"
  by (auto simp add: isHighSurrogate_def isLowSurrogate_def isSurrogate_def)

lemma surrogate_offsets:
  assumes "isHighSurrogate c" "isLowSurrogate d"
  obtains a b where "c = 0xD800 + a" "d = 0xDC00 + b" "a < 0x400" "b < 0x400"
proof
  show "c = 0xD800 + (c - 0xD800)" "d = 0xDC00 + (d - 0xDC00)" "c - 0xD800 < 0x400"
    "d - 0xDC00 < 0x400"
    using assms by (auto simp add: isHighSurrogate_def isLowSurrogate_def)
qed

lemma codeUnits_pair:
  assumes "isHighSurrogate c" "isLowSurrogate d"
  shows "codeUnits ((0x10000 + (c - 0xD800) * 0x400 + (d - 0xDC00)) # cps) = c # d # codeUnits cps"
proof -
  from assms obtain a b where "c = 0xD800 + a" "d = 0xDC00 + b" "a < 0x400" "b < 0x400"
    by (rule surrogate_offsets)
  then show ?thesis by simp
qed

lemma pair_bound:
  assumes "isHighSurrogate c" "isLowSurrogate d"
  shows "0x10000 + (c - 0xD800) * 0x400 + (d - 0xDC00) < 0x110000"
proof -
  from assms obtain a b where "c = 0xD800 + a" "d = 0xDC00 + b" "a < 0x400" "b < 0x400"
    by (rule surrogate_offsets)
  then show ?thesis by simp
qed

lemma unit_value:
  assumes "\<not> c < 0x10000" "c < 0x110000"
  shows "isHighSurrogate (0xD800 + (c - 0x10000) div 0x400)"
    and "isLowSurrogate (0xDC00 + (c - 0x10000) mod 0x400)"
    and "0x10000 + (0xD800 + (c - 0x10000) div 0x400 - 0xD800) * 0x400
         + (0xDC00 + (c - 0x10000) mod 0x400 - 0xDC00) = c"
    and "0xD800 + (c - 0x10000) div 0x400 < 0x10000"
    and "0xDC00 + (c - 0x10000) mod 0x400 < 0x10000"
  using assms by (simp_all add: isHighSurrogate_def isLowSurrogate_def)

lemma codeUnits_codePoints: "validString s \<Longrightarrow> codeUnits (codePoints s) = s"
proof (induction s rule: codePoints.induct)
  case (3 c d cs)
  show ?case
  proof (cases "isHighSurrogate c \<and> isLowSurrogate d")
    case True
    with "3.prems" "3.IH"(1) have "codeUnits (codePoints cs) = cs" by (simp add: validString_def)
    with True show ?thesis by (simp add: codeUnits_pair del: codeUnits.simps)
  next
    case False
    with "3.prems" "3.IH"(2) have "codeUnits (codePoints (d # cs)) = d # cs"
      by (simp add: validString_def)
    with False "3.prems" show ?thesis by (auto simp add: validString_def)
  qed
qed (simp_all add: validString_def)

lemma codePointList_codePoints: "validString s \<Longrightarrow> codePointList (codePoints s)"
proof (induction s rule: codePoints.induct)
  case (3 c d cs)
  show ?case
  proof (cases "isHighSurrogate c \<and> isLowSurrogate d")
    case True
    with "3.prems" "3.IH"(1) have "codePointList (codePoints cs)" by (simp add: validString_def)
    with True pair_bound [of c d] show ?thesis by (simp add: codePointList_def)
  next
    case False
    with "3.prems" "3.IH"(2) have "codePointList (codePoints (d # cs))"
      by (simp add: validString_def)
    with False "3.prems" show ?thesis by (auto simp add: validString_def codePointList_def)
  qed
qed (simp_all add: validString_def codePointList_def)

lemma codePoints_eq_Nil: "codePoints s = [] \<longleftrightarrow> s = []"
  by (cases s rule: codePoints.cases) simp_all

lemma hd_codePoints:
  "s \<noteq> [] \<Longrightarrow> hd (codePoints s) = hd s \<or> 0x10000 \<le> hd (codePoints s)"
  by (cases s rule: codePoints.cases) simp_all

lemma last_codePoints:
  "s \<noteq> [] \<Longrightarrow> last (codePoints s) = last s \<or> 0x10000 \<le> last (codePoints s)"
  by (induction s rule: codePoints.induct) (auto simp add: codePoints_eq_Nil)

lemma trimmed_codePoints: "trimmed s \<Longrightarrow> trimmed (codePoints s)"
proof (cases "s = []")
  case True
  then show ?thesis by (simp add: trimmed_def)
next
  case False
  assume "trimmed s"
  with False have "\<not> isWhiteSpace (hd s)" "\<not> isWhiteSpace (last s)" by (simp_all add: trimmed_def)
  moreover have "\<not> isWhiteSpace c" if "0x10000 \<le> c" for c
    using that isWhiteSpace_not_surrogate [of c] by auto
  ultimately have "\<not> isWhiteSpace (hd (codePoints s))" "\<not> isWhiteSpace (last (codePoints s))"
    using hd_codePoints [OF False] last_codePoints [OF False] by metis+
  then show ?thesis by (simp add: trimmed_def)
qed

lemma noPair_Cons_iff:
  "noPair (c # cs) \<longleftrightarrow> (cs = [] \<or> \<not> (isHighSurrogate c \<and> isLowSurrogate (hd cs))) \<and> noPair cs"
  by (cases cs) auto

lemma noPair_codePoints: "noPair (codePoints s)"
proof (induction s rule: codePoints.induct)
  case (3 c d cs)
  show ?case
  proof (cases "isHighSurrogate c \<and> isLowSurrogate d")
    case True
    then have "\<not> isHighSurrogate (0x10000 + (c - 0xD800) * 0x400 + (d - 0xDC00))"
      by (simp add: isHighSurrogate_def)
    with True "3.IH"(1) show ?thesis by (simp add: noPair_Cons_iff)
  next
    case False
    have "hd (codePoints (d # cs)) = d \<or> 0x10000 \<le> hd (codePoints (d # cs))"
      using hd_codePoints [of "d # cs"] by simp
    then have "\<not> (isHighSurrogate c \<and> isLowSurrogate (hd (codePoints (d # cs))))"
      using False by (auto simp add: isLowSurrogate_def)
    with False "3.IH"(2) show ?thesis by (auto simp add: noPair_Cons_iff)
  qed
qed simp_all

lemma codeUnits_eq_Nil: "codeUnits cps = [] \<longleftrightarrow> cps = []"
  by (cases cps) simp_all

lemma hd_codeUnits:
  "cps \<noteq> [] \<Longrightarrow> hd cps < 0x110000 \<Longrightarrow>
   hd (codeUnits cps) = hd cps \<or> (isHighSurrogate (hd (codeUnits cps)) \<and> 0x10000 \<le> hd cps)"
  by (cases cps) (simp_all add: unit_value)

lemma codePoints_lone:
  "us = [] \<or> \<not> (isHighSurrogate c \<and> isLowSurrogate (hd us)) \<Longrightarrow>
   codePoints (c # us) = c # codePoints us"
  by (cases us) auto

lemma codePoints_codeUnits:
  "codePointList cps \<Longrightarrow> noPair cps \<Longrightarrow> codePoints (codeUnits cps) = cps"
proof (induction cps)
  case Nil
  then show ?case by simp
next
  case (Cons c cs)
  then have c: "c < 0x110000" and cs: "codePointList cs" and np: "noPair cs"
    by (simp_all add: codePointList_def noPair_Cons_iff)
  with Cons.IH have IH: "codePoints (codeUnits cs) = cs" by simp
  show ?case
  proof (cases "c < 0x10000")
    case True
    have "codeUnits cs = [] \<or> \<not> (isHighSurrogate c \<and> isLowSurrogate (hd (codeUnits cs)))"
    proof (cases "cs = []")
      case True
      then show ?thesis by simp
    next
      case False
      then have "hd cs < 0x110000" using cs by (cases cs) (simp_all add: codePointList_def)
      with False have "hd (codeUnits cs) = hd cs \<or> isHighSurrogate (hd (codeUnits cs))"
        using hd_codeUnits by blast
      moreover have "\<not> (isHighSurrogate c \<and> isLowSurrogate (hd cs))"
        using Cons.prems(2) False by (simp add: noPair_Cons_iff)
      ultimately show ?thesis by (auto simp add: isHighSurrogate_def isLowSurrogate_def)
    qed
    then have "codePoints (c # codeUnits cs) = c # codePoints (codeUnits cs)"
      by (rule codePoints_lone)
    with True IH show ?thesis by simp
  next
    case False
    with c IH show ?thesis by (simp add: unit_value)
  qed
qed

lemma codeUnits_append: "codeUnits (a @ b) = codeUnits a @ codeUnits b"
  by (induction a) simp_all

lemma validString_codeUnits: "codePointList cps \<Longrightarrow> validString (codeUnits cps)"
  by (induction cps) (simp_all add: codePointList_def validString_def unit_value)

lemma trimmed_codeUnits:
  assumes "codePointList cps" "trimmed cps"
  shows "trimmed (codeUnits cps)"
proof (cases "cps = []")
  case True
  then show ?thesis by (simp add: trimmed_def)
next
  case False
  with assms(2) have h: "\<not> isWhiteSpace (hd cps)" and l: "\<not> isWhiteSpace (last cps)"
    by (simp_all add: trimmed_def)
  have hlt: "hd cps < 0x110000" using False assms(1) by (cases cps) (simp_all add: codePointList_def)
  have "\<not> isWhiteSpace (hd (codeUnits cps))"
    using hd_codeUnits [OF False hlt] h isWhiteSpace_not_surrogate by metis
  moreover have "\<not> isWhiteSpace (last (codeUnits cps))"
  proof -
    from False obtain xs c where x: "cps = xs @ [c]" by (metis rev_exhaust)
    with assms(1) have c: "c < 0x110000" by (simp add: codePointList_def)
    have "last (codeUnits cps) = last (codeUnits [c])"
      unfolding x codeUnits_append by (simp add: codeUnits_eq_Nil)
    moreover have "\<not> isWhiteSpace (last (codeUnits [c]))"
    proof (cases "c < 0x10000")
      case True
      with l x show ?thesis by simp
    next
      case False
      then show ?thesis
        using unit_value(2) [OF False c] isWhiteSpace_not_surrogate by auto
    qed
    ultimately show ?thesis by simp
  qed
  ultimately show ?thesis by (simp add: trimmed_def)
qed

lemma codePointList_dropWhile: "codePointList cps \<Longrightarrow> codePointList (dropWhile P cps)"
  unfolding codePointList_def list_all_iff using set_dropWhileD by fast

lemma dropWhile_codeUnits:
  "codePointList cps \<Longrightarrow>
   dropWhile isWhiteSpace (codeUnits cps) = codeUnits (dropWhile isWhiteSpace cps)"
proof (induction cps)
  case Nil
  then show ?case by simp
next
  case (Cons c cs)
  then have c: "c < 0x110000" and IH: "dropWhile isWhiteSpace (codeUnits cs)
                                      = codeUnits (dropWhile isWhiteSpace cs)"
    by (simp_all add: codePointList_def)
  show ?case
  proof (cases "c < 0x10000")
    case True
    with IH show ?thesis by simp
  next
    case False
    then have "\<not> isWhiteSpace c" using isWhiteSpace_not_surrogate by blast
    moreover have "\<not> isWhiteSpace (0xD800 + (c - 0x10000) div 0x400)"
      using unit_value(1) [OF False c] isWhiteSpace_not_surrogate by blast
    ultimately show ?thesis using False by simp
  qed
qed

lemma replaceWhitespace_codeUnits:
  "codePointList cps \<Longrightarrow> replaceWhitespace (codeUnits cps) = codeUnits (replaceWhitespace cps)"
proof (induction cps rule: replaceWhitespace.induct)
  case 1
  then show ?case by simp
next
  case (2 c cs)
  then have c: "c < 0x110000" and cs: "codePointList cs" by (simp_all add: codePointList_def)
  show ?case
  proof (cases "isWhiteSpace c")
    case True
    then have lt: "c < 0x10000" using isWhiteSpace_not_surrogate by blast
    have "replaceWhitespace (codeUnits (dropWhile isWhiteSpace cs))
          = codeUnits (replaceWhitespace (dropWhile isWhiteSpace cs))"
      using "2.IH"(1) True cs codePointList_dropWhile by blast
    with True lt cs show ?thesis by (simp add: dropWhile_codeUnits)
  next
    case False
    with "2.IH"(2) cs have IH: "replaceWhitespace (codeUnits cs) = codeUnits (replaceWhitespace cs)"
      by blast
    show ?thesis
    proof (cases "c < 0x10000")
      case True
      with False IH show ?thesis by simp
    next
      case nlt: False
      have "\<not> isWhiteSpace (0xD800 + (c - 0x10000) div 0x400)"
        "\<not> isWhiteSpace (0xDC00 + (c - 0x10000) mod 0x400)"
        using unit_value(1,2) [OF nlt c] isWhiteSpace_not_surrogate by blast+
      with False nlt IH show ?thesis by simp
    qed
  qed
qed

lemma noPair_dropWhile: "noPair cps \<Longrightarrow> noPair (dropWhile P cps)"
  by (induction cps) (simp_all add: noPair_Cons_iff)

lemma hd_replaceWhitespace_eq:
  "s \<noteq> [] \<Longrightarrow> hd (replaceWhitespace s) = (if isWhiteSpace (hd s) then 0x20 else hd s)"
  by (cases s) simp_all

lemma noPair_replaceWhitespace: "noPair cps \<Longrightarrow> noPair (replaceWhitespace cps)"
proof (induction cps rule: replaceWhitespace.induct)
  case 1
  then show ?case by simp
next
  case (2 c cs)
  from "2.prems" have cs: "noPair cs" by (simp add: noPair_Cons_iff)
  show ?case
  proof (cases "isWhiteSpace c")
    case True
    have "noPair (replaceWhitespace (dropWhile isWhiteSpace cs))"
      using "2.IH"(1) True cs noPair_dropWhile by blast
    moreover have "\<not> isHighSurrogate 0x20" by (simp add: isHighSurrogate_def)
    ultimately show ?thesis using True by (simp add: noPair_Cons_iff)
  next
    case False
    have np: "noPair (replaceWhitespace cs)" using "2.IH"(2) False cs by blast
    have "replaceWhitespace cs = []
          \<or> \<not> (isHighSurrogate c \<and> isLowSurrogate (hd (replaceWhitespace cs)))"
    proof (cases "cs = []")
      case True
      then show ?thesis by simp
    next
      case ne: False
      have "\<not> (isHighSurrogate c \<and> isLowSurrogate (hd cs))"
        using "2.prems" ne by (simp add: noPair_Cons_iff)
      moreover have "\<not> isLowSurrogate 0x20" by (simp add: isLowSurrogate_def)
      ultimately show ?thesis using hd_replaceWhitespace_eq [OF ne] by auto
    qed
    with np False show ?thesis by (simp add: noPair_Cons_iff)
  qed
qed

subsection \<open>Lower case\<close>

lemma caseStable_at:
  assumes "caseStable u" "c < 0x110000"
  shows "lowercaseMapping u c \<noteq> []
         \<and> (\<forall>d \<in> set (lowercaseMapping u c).
               d < 0x110000 \<and> lowercaseMapping u d = [d] \<and> d \<noteq> 0x3A3
               \<and> (\<not> isWhiteSpace c \<longrightarrow> \<not> isWhiteSpace d)
               \<and> (\<not> isSurrogate c \<longrightarrow> \<not> isSurrogate d))
         \<and> (c = 0x20 \<or> isSurrogate c \<or> c = 0x3C2 \<longrightarrow> lowercaseMapping u c = [c])"
proof -
  have "c < 0x110000 \<longrightarrow>
        lowercaseMapping u c \<noteq> []
         \<and> (\<forall>d \<in> set (lowercaseMapping u c).
               d < 0x110000 \<and> lowercaseMapping u d = [d] \<and> d \<noteq> 0x3A3
               \<and> (\<not> isWhiteSpace c \<longrightarrow> \<not> isWhiteSpace d)
               \<and> (\<not> isSurrogate c \<longrightarrow> \<not> isSurrogate d))
         \<and> (c = 0x20 \<or> isSurrogate c \<or> c = 0x3C2 \<longrightarrow> lowercaseMapping u c = [c])"
    using assms(1) unfolding caseStable_def by (rule spec)
  then show ?thesis using assms(2) by (rule mp)
qed

lemma caseStable_fixed:
  assumes "caseStable u"
  shows "lowercaseMapping u 0x3C2 = [0x3C2]" and "lowercaseMapping u 0x20 = [0x20]"
proof -
  have "(0x3C2 :: nat) < 0x110000" "(0x20 :: nat) < 0x110000" by simp_all
  then show "lowercaseMapping u 0x3C2 = [0x3C2]" "lowercaseMapping u 0x20 = [0x20]"
    using caseStable_at [OF assms, of "0x3C2"] caseStable_at [OF assms, of "0x20"]
      isWhiteSpace_space by blast+
qed

lemma lowercaseOf_stable:
  assumes "caseStable u" "c < 0x110000"
  shows "lowercaseOf u b c f \<noteq> []"
    and "d \<in> set (lowercaseOf u b c f) \<Longrightarrow>
         d < 0x110000 \<and> lowercaseMapping u d = [d] \<and> d \<noteq> 0x3A3
         \<and> (\<not> isWhiteSpace c \<longrightarrow> \<not> isWhiteSpace d) \<and> (\<not> isSurrogate c \<longrightarrow> \<not> isSurrogate d)"
    and "isSurrogate c \<Longrightarrow> lowercaseOf u b c f = [c]"
proof -
  note sigma = caseStable_fixed(1) [OF assms(1)]
  note at = caseStable_at [OF assms]
  from at have ne: "lowercaseMapping u c \<noteq> []" by (rule conjunct1)
  from at have fixed: "isSurrogate c \<Longrightarrow> lowercaseMapping u c = [c]" by blast
  have fs: "\<not> isWhiteSpace 0x3C2" "\<not> isSurrogate 0x3C2" "\<not> isSurrogate 0x3A3"
    by (simp_all add: isWhiteSpace_def isSurrogate_def)
  show "lowercaseOf u b c f \<noteq> []" using ne by (simp add: lowercaseOf_def)
  show "d < 0x110000 \<and> lowercaseMapping u d = [d] \<and> d \<noteq> 0x3A3
        \<and> (\<not> isWhiteSpace c \<longrightarrow> \<not> isWhiteSpace d) \<and> (\<not> isSurrogate c \<longrightarrow> \<not> isSurrogate d)"
    if "d \<in> set (lowercaseOf u b c f)"
  proof (cases "c = 0x3A3 \<and> finalSigma u b f")
    case True
    with that have "d = 0x3C2" by (simp add: lowercaseOf_def)
    with sigma fs show ?thesis by simp
  next
    case False
    with that have "d \<in> set (lowercaseMapping u c)" by (auto simp add: lowercaseOf_def)
    with at show ?thesis by blast
  qed
  show "lowercaseOf u b c f = [c]" if "isSurrogate c"
  proof -
    from that fs(3) have "c \<noteq> 0x3A3" by metis
    moreover from that have "lowercaseMapping u c = [c]" by (rule fixed)
    ultimately show ?thesis by (simp add: lowercaseOf_def)
  qed
qed

lemma toLowercase_lowercased: "lowercased u cps \<Longrightarrow> toLowercase u b cps = cps"
  by (induction cps arbitrary: b) (simp_all add: lowercased_def lowercaseOf_def)

lemma lowercased_codePointList: "lowercased u cps \<Longrightarrow> codePointList cps"
  by (simp add: lowercased_def codePointList_def list_all_iff)

lemma lowercased_toLowercase:
  "caseStable u \<Longrightarrow> codePointList cps \<Longrightarrow> lowercased u (toLowercase u b cps)"
proof (induction cps arbitrary: b)
  case Nil
  then show ?case by (simp add: lowercased_def)
next
  case (Cons c cs)
  then have c: "c < 0x110000" and cs: "codePointList cs" by (simp_all add: codePointList_def)
  have "lowercased u (lowercaseOf u b c cs)"
    unfolding lowercased_def list_all_iff
    using lowercaseOf_stable(2) [OF Cons.prems(1) c] by blast
  moreover have "lowercased u (toLowercase u (c # b) cs)"
    using Cons.IH Cons.prems(1) cs by blast
  ultimately show ?case by (simp add: lowercased_def)
qed

lemma toLowercase_eq_Nil:
  "caseStable u \<Longrightarrow> codePointList cps \<Longrightarrow> toLowercase u b cps = [] \<longleftrightarrow> cps = []"
proof (cases cps)
  case Nil
  then show ?thesis by simp
next
  case (Cons c cs)
  assume "caseStable u" "codePointList cps"
  with Cons have "lowercaseOf u b c cs \<noteq> []"
    using lowercaseOf_stable(1) by (simp add: codePointList_def)
  with Cons show ?thesis by simp
qed

lemma hd_toLowercase:
  assumes "caseStable u" "codePointList (c # cs)"
  shows "hd (toLowercase u b (c # cs)) \<in> set (lowercaseOf u b c cs)"
proof -
  have "lowercaseOf u b c cs \<noteq> []"
    using assms lowercaseOf_stable(1) by (simp add: codePointList_def)
  then show ?thesis by simp
qed

lemma last_toLowercase:
  "caseStable u \<Longrightarrow> codePointList cps \<Longrightarrow> cps \<noteq> [] \<Longrightarrow> \<not> isWhiteSpace (last cps) \<Longrightarrow>
   \<not> isWhiteSpace (last (toLowercase u b cps))"
proof (induction cps arbitrary: b)
  case Nil
  then show ?case by simp
next
  case (Cons c cs)
  then have c: "c < 0x110000" and cs: "codePointList cs" by (simp_all add: codePointList_def)
  show ?case
  proof (cases "cs = []")
    case True
    with Cons.prems have nw: "\<not> isWhiteSpace c" by simp
    have "lowercaseOf u b c [] \<noteq> []" using lowercaseOf_stable(1) [OF Cons.prems(1) c] .
    then have "last (lowercaseOf u b c []) \<in> set (lowercaseOf u b c [])" by (rule last_in_set)
    then have "\<not> isWhiteSpace (last (lowercaseOf u b c []))"
      using lowercaseOf_stable(2) [OF Cons.prems(1) c] nw by blast
    with True show ?thesis by simp
  next
    case False
    with Cons.prems have "\<not> isWhiteSpace (last cs)" by simp
    then have "\<not> isWhiteSpace (last (toLowercase u (c # b) cs))"
      using Cons.IH Cons.prems(1) cs False by blast
    moreover have "toLowercase u (c # b) cs \<noteq> []"
      using toLowercase_eq_Nil [OF Cons.prems(1) cs] False by blast
    ultimately show ?thesis by simp
  qed
qed

lemma trimmed_toLowercase:
  assumes "caseStable u" "codePointList cps" "trimmed cps"
  shows "trimmed (toLowercase u b cps)"
proof (cases cps)
  case Nil
  then show ?thesis by (simp add: trimmed_def)
next
  case (Cons c cs)
  with assms(3) have h: "\<not> isWhiteSpace c" and l: "\<not> isWhiteSpace (last cps)"
    by (simp_all add: trimmed_def)
  from Cons assms(2) have c: "c < 0x110000" by (simp add: codePointList_def)
  have "hd (toLowercase u b cps) \<in> set (lowercaseOf u b c cs)"
    using hd_toLowercase assms(1,2) Cons by blast
  then have "\<not> isWhiteSpace (hd (toLowercase u b cps))"
    using lowercaseOf_stable(2) [OF assms(1) c] h by blast
  moreover have "\<not> isWhiteSpace (last (toLowercase u b cps))"
    using last_toLowercase [OF assms(1,2)] Cons l by blast
  ultimately show ?thesis by (simp add: trimmed_def)
qed

lemma noPair_append:
  "noPair (xs @ ys) \<longleftrightarrow>
   noPair xs \<and> noPair ys
   \<and> (xs = [] \<or> ys = [] \<or> \<not> (isHighSurrogate (last xs) \<and> isLowSurrogate (hd ys)))"
proof (induction xs)
  case Nil
  then show ?case by simp
next
  case (Cons x xs)
  show ?case
  proof (cases "xs = []")
    case True
    then show ?thesis by (auto simp add: noPair_Cons_iff)
  next
    case False
    with Cons show ?thesis by (auto simp add: noPair_Cons_iff)
  qed
qed

lemma noPair_no_surrogate: "list_all (\<lambda>c. \<not> isSurrogate c) cps \<Longrightarrow> noPair cps"
  by (induction cps) (auto simp add: noPair_Cons_iff isSurrogate_iff)

lemma noPair_toLowercase:
  "caseStable u \<Longrightarrow> codePointList cps \<Longrightarrow> noPair cps \<Longrightarrow> noPair (toLowercase u b cps)"
proof (induction cps arbitrary: b)
  case Nil
  then show ?case by simp
next
  case (Cons c cs)
  then have c: "c < 0x110000" and cs: "codePointList cs" and np: "noPair cs"
    by (simp_all add: codePointList_def noPair_Cons_iff)
  let ?i = "lowercaseOf u b c cs" and ?r = "toLowercase u (c # b) cs"
  have r: "noPair ?r" using Cons.IH Cons.prems(1) cs np by blast
  have ne: "?i \<noteq> []" using lowercaseOf_stable(1) [OF Cons.prems(1) c] .
  show ?case
  proof (cases "isSurrogate c")
    case True
    then have i: "?i = [c]" using lowercaseOf_stable(3) [OF Cons.prems(1) c] by blast
    have "?r = [] \<or> \<not> (isHighSurrogate c \<and> isLowSurrogate (hd ?r))"
    proof (cases cs)
      case Nil
      then show ?thesis by simp
    next
      case (Cons d ds)
      with cs have d: "d < 0x110000" by (simp add: codePointList_def)
      have mem: "hd ?r \<in> set (lowercaseOf u (c # b) d ds)"
        using hd_toLowercase [OF Cons.prems(1)] cs Cons \<open>caseStable u\<close> by blast
      have pair: "\<not> (isHighSurrogate c \<and> isLowSurrogate d)"
        using \<open>noPair (c # cs)\<close> Cons by simp
      show ?thesis
      proof (cases "isSurrogate d")
        case True
        then have "lowercaseOf u (c # b) d ds = [d]"
          using lowercaseOf_stable(3) [OF \<open>caseStable u\<close> d] by blast
        with mem pair show ?thesis by simp
      next
        case False
        then have "\<not> isSurrogate (hd ?r)"
          using lowercaseOf_stable(2) [OF \<open>caseStable u\<close> d mem] by blast
        then show ?thesis by (simp add: isSurrogate_iff)
      qed
    qed
    with i r show ?thesis by (simp add: noPair_Cons_iff)
  next
    case False
    then have all: "list_all (\<lambda>c. \<not> isSurrogate c) ?i"
      unfolding list_all_iff using lowercaseOf_stable(2) [OF Cons.prems(1) c] by blast
    then have "noPair ?i" by (rule noPair_no_surrogate)
    moreover have "\<not> isHighSurrogate (last ?i)"
      using all ne last_in_set [OF ne] by (auto simp add: list_all_iff isSurrogate_iff)
    ultimately show ?thesis using r by (simp add: noPair_append)
  qed
qed

lemma lowercased_replaceWhitespace:
  assumes "caseStable u" "lowercased u cps"
  shows "lowercased u (replaceWhitespace cps)"
proof -
  have "lowercaseMapping u 0x20 = [0x20]"
    using assms(1) by (rule caseStable_fixed(2))
  then have "d < 0x110000 \<and> lowercaseMapping u d = [d] \<and> d \<noteq> 0x3A3"
    if "d \<in> set (replaceWhitespace cps)" for d
    using that set_replaceWhitespace [of cps] assms(2)
    by (auto simp add: lowercased_def list_all_iff)
  then show ?thesis by (simp add: lowercased_def list_all_iff)
qed

subsection \<open>The normal form\<close>

lemma validString_trim: "validString s \<Longrightarrow> validString (trim s)"
  unfolding validString_def list_all_iff using set_trim by blast

text \<open>
  The normal form of a string is the encoding of a list of code points that decoding gives
  back and that lower-casing and collapsing leave as they are.
\<close>

lemma normalizeString_shape:
  assumes "validString x" "caseStable u"
  shows "\<exists>cps. normalizeString u x = codeUnits cps \<and> codePointList cps \<and> noPair cps
               \<and> lowercased u cps \<and> replaceWhitespace cps = cps
               \<and> trimmed (toLowerCase u (trim x))"
proof -
  let ?p = "codePoints (trim x)"
  let ?q = "toLowercase u [] ?p"
  let ?r = "replaceWhitespace ?q"
  have p: "codePointList ?p" "noPair ?p" "trimmed ?p"
    using assms(1) by (simp_all add: validString_trim codePointList_codePoints noPair_codePoints
        trimmed_codePoints trimmed_trim)
  have q: "lowercased u ?q" "noPair ?q" "trimmed ?q"
    using assms(2) p by (simp_all add: lowercased_toLowercase noPair_toLowercase trimmed_toLowercase)
  then have ql: "codePointList ?q" by (simp add: lowercased_codePointList)
  have "normalizeString u x = codeUnits ?r"
    by (simp add: normalizeString_def toLowerCase_def replaceWhitespace_codeUnits ql)
  moreover have "lowercased u ?r" using assms(2) q(1) by (rule lowercased_replaceWhitespace)
  moreover have "noPair ?r" using q(2) by (rule noPair_replaceWhitespace)
  moreover have "replaceWhitespace ?r = ?r" by (rule replaceWhitespace_idem)
  moreover have "trimmed (toLowerCase u (trim x))"
    unfolding toLowerCase_def using ql q(3) by (rule trimmed_codeUnits)
  ultimately show ?thesis using lowercased_codePointList by blast
qed

lemma normalizeString_Nil: "normalizeString u [] = []"
  by (simp add: normalizeString_def toLowerCase_def trim_def)

lemma toLowerCase_normalizeString:
  assumes "validString x" "caseStable u"
  shows "toLowerCase u (normalizeString u x) = normalizeString u x"
proof -
  from normalizeString_shape [OF assms] obtain cps where
    "normalizeString u x = codeUnits cps" "codePointList cps" "noPair cps" "lowercased u cps"
    by blast
  then show ?thesis
    by (simp add: toLowerCase_def codePoints_codeUnits toLowercase_lowercased)
qed

lemma trimmed_normalizeString:
  assumes "validString x" "caseStable u"
  shows "trimmed (normalizeString u x)"
proof -
  from normalizeString_shape [OF assms] have "trimmed (toLowerCase u (trim x))" by blast
  then show ?thesis unfolding normalizeString_def by (rule trimmed_replaceWhitespace)
qed

lemma validString_normalizeString:
  assumes "validString x" "caseStable u"
  shows "validString (normalizeString u x)"
proof -
  from normalizeString_shape [OF assms] obtain cps where
    "normalizeString u x = codeUnits cps" "codePointList cps" by blast
  then show ?thesis by (simp add: validString_codeUnits)
qed

lemma normalizeString_idem:
  assumes "validString x" "caseStable u"
  shows "normalizeString u (normalizeString u x) = normalizeString u x"
proof -
  have "normalizeString u (normalizeString u x)
        = replaceWhitespace (toLowerCase u (trim (normalizeString u x)))"
    by (simp add: normalizeString_def)
  also have "\<dots> = replaceWhitespace (toLowerCase u (normalizeString u x))"
    using trimmed_normalizeString [OF assms] by (simp add: trim_trimmed)
  also have "\<dots> = replaceWhitespace (normalizeString u x)"
    by (simp only: toLowerCase_normalizeString [OF assms])
  also have "\<dots> = normalizeString u x"
    by (simp add: normalizeString_def replaceWhitespace_idem)
  finally show ?thesis .
qed

lemma normalizeString_words:
  assumes "validString x" "caseStable u"
  shows "normalizeString u x = join [0x20] (wordsOf (toLowerCase u (trim x)))"
proof -
  from normalizeString_shape [OF assms] have "trimmed (toLowerCase u (trim x))" by blast
  then show ?thesis unfolding normalizeString_def by (rule replaceWhitespace_trimmed)
qed

lemma caseStable_exampleUnicode: "caseStable exampleUnicode"
proof -
  have ne: "lowercaseMapping exampleUnicode c \<noteq> []" for c
    by (simp add: exampleUnicode_def)
  have fixed: "lowercaseMapping exampleUnicode c = [c]"
    if "c = 0x20 \<or> isSurrogate c \<or> c = 0x3C2" for c
    using that isWhiteSpace_lt [of c]
    by (auto simp add: exampleUnicode_def isSurrogate_def isWhiteSpace_def)
  have img: "d < 0x110000 \<and> lowercaseMapping exampleUnicode d = [d] \<and> d \<noteq> 0x3A3
             \<and> (\<not> isWhiteSpace c \<longrightarrow> \<not> isWhiteSpace d) \<and> (\<not> isSurrogate c \<longrightarrow> \<not> isSurrogate d)"
    if d: "d \<in> set (lowercaseMapping exampleUnicode c)" and c: "c < 0x110000" for c d
  proof -
    from d consider "0x41 \<le> c" "c \<le> 0x5A" "d = c + 0x20" | "0x391 \<le> c" "c \<le> 0x3A1" "d = c + 0x20"
      | "0x3A3 \<le> c" "c \<le> 0x3A9" "d = c + 0x20" | "c = 0x130" "d = 0x69 \<or> d = 0x307"
      | "d = c" "\<not> (0x41 \<le> c \<and> c \<le> 0x5A)" "\<not> (0x391 \<le> c \<and> c \<le> 0x3A1)"
        "\<not> (0x3A3 \<le> c \<and> c \<le> 0x3A9)" "c \<noteq> 0x130"
      by (auto simp add: exampleUnicode_def split: if_splits)
    then show ?thesis
    proof cases
      case 5
      with c show ?thesis by (auto simp add: exampleUnicode_def)
    qed (auto simp add: exampleUnicode_def isWhiteSpace_def isSurrogate_def)
  qed
  show ?thesis unfolding caseStable_def
  proof (intro allI impI conjI ballI)
    fix c :: nat
    assume c: "c < 0x110000"
    show "lowercaseMapping exampleUnicode c \<noteq> []" by (rule ne)
    show "lowercaseMapping exampleUnicode c = [c]"
      if "c = 0x20 \<or> isSurrogate c \<or> c = 0x3C2" using that by (rule fixed)
    fix d assume d: "d \<in> set (lowercaseMapping exampleUnicode c)"
    show "d < 0x110000" "lowercaseMapping exampleUnicode d = [d]" "d \<noteq> 0x3A3"
      using img [OF d c] by blast+
    show "\<not> isWhiteSpace d" if "\<not> isWhiteSpace c" using img [OF d c] that by blast
    show "\<not> isSurrogate d" if "\<not> isSurrogate c" using img [OF d c] that by blast
  qed
qed

section \<open>Claims about the normaliser\<close>

text \<open>
  C8: \<open>normalizeString\<close> is a total function on every string, the empty one included (it is
  a HOL function, and its recursions, \<open>replaceWhitespace\<close>, \<open>codePoints\<close>, \<open>codeUnits\<close> and
  \<open>toLowercase\<close>, terminate). On every string of UTF-16 code units, whatever Final_Sigma
  decides and for every lowercase mapping with the properties \<open>caseStable\<close>, which the
  mapping of the Unicode Character Database has: it is idempotent; the empty string is its
  own normal form; \<open>trim\<close> removes white space at both ends and nothing else, and leaves none
  there; the result is the words of the trimmed and lower-cased string, its maximal runs of
  code units that are not white space, joined by one space each; so it has no white space
  at either end, no white space other than single spaces and never two in a row; and
  lower-casing leaves the result as it is.
\<close>

theorem normalizeString_idempotent:
  assumes "validString x" and "caseStable u"
  shows "normalizeString u (normalizeString u x) = normalizeString u x
   \<and> normalizeString u [] = []
   \<and> validString (normalizeString u x)
   \<and> (\<exists>l r. x = l @ trim x @ r \<and> list_all isWhiteSpace l \<and> list_all isWhiteSpace r)
   \<and> trimmed (trim x)
   \<and> normalizeString u x = join [0x20] (wordsOf (toLowerCase u (trim x)))
   \<and> (\<forall>w \<in> set (wordsOf (toLowerCase u (trim x))).
         w \<noteq> [] \<and> list_all (\<lambda>c. \<not> isWhiteSpace c) w)
   \<and> concat (wordsOf (toLowerCase u (trim x)))
       = filter (\<lambda>c. \<not> isWhiteSpace c) (toLowerCase u (trim x))
   \<and> trimmed (normalizeString u x)
   \<and> (\<forall>c \<in> set (normalizeString u x). isWhiteSpace c \<longrightarrow> c = 0x20)
   \<and> \<not> sublist [0x20, 0x20] (normalizeString u x)
   \<and> toLowerCase u (normalizeString u x) = normalizeString u x"
proof -
  have "\<forall>c \<in> set (normalizeString u x). isWhiteSpace c \<longrightarrow> c = 0x20"
    unfolding normalizeString_def using replaceWhitespace_ws by blast
  moreover have "\<not> sublist [0x20, 0x20] (normalizeString u x)"
    unfolding normalizeString_def by (rule replaceWhitespace_single)
  moreover have "\<forall>w \<in> set (wordsOf (toLowerCase u (trim x))).
                   w \<noteq> [] \<and> list_all (\<lambda>c. \<not> isWhiteSpace c) w"
    using wordsOf_word by blast
  moreover note normalizeString_idem [OF assms] normalizeString_Nil [of u]
    validString_normalizeString [OF assms] trim_decomposition [of x] trimmed_trim [of x]
    normalizeString_words [OF assms] concat_wordsOf [of "toLowerCase u (trim x)"]
    trimmed_normalizeString [OF assms] toLowerCase_normalizeString [OF assms]
  ultimately show ?thesis by (intro conjI)
qed

theorem normalizeString_idempotent_witness:
  "validString mixedCase \<and> caseStable exampleUnicode
   \<and> normalizeString exampleUnicode mixedCase
       = [0x3B1, 0x3C2, 0x20, 0x69, 0x307, 0x3C3, 0x3B2, 0xD83D, 0xDE00, 0xD800]
   \<and> wordsOf (toLowerCase exampleUnicode (trim mixedCase))
       = [[0x3B1, 0x3C2], [0x69, 0x307, 0x3C3, 0x3B2, 0xD83D, 0xDE00, 0xD800]]
   \<and> normalizeString exampleUnicode (ascii ''  Pink   FLOYD  '') = ascii ''pink floyd''
   \<and> normalizeString exampleUnicode (normalizeString exampleUnicode mixedCase)
       = normalizeString exampleUnicode mixedCase
   \<and> normalizeString exampleUnicode mixedCase
       = join [0x20] (wordsOf (toLowerCase exampleUnicode (trim mixedCase)))
   \<and> trimmed (normalizeString exampleUnicode mixedCase)
   \<and> toLowerCase exampleUnicode (normalizeString exampleUnicode mixedCase)
       = normalizeString exampleUnicode mixedCase"
proof -
  have v: "validString mixedCase" by code_simp
  have "normalizeString exampleUnicode mixedCase
        = [0x3B1, 0x3C2, 0x20, 0x69, 0x307, 0x3C3, 0x3B2, 0xD83D, 0xDE00, 0xD800]"
    "wordsOf (toLowerCase exampleUnicode (trim mixedCase))
       = [[0x3B1, 0x3C2], [0x69, 0x307, 0x3C3, 0x3B2, 0xD83D, 0xDE00, 0xD800]]"
    "normalizeString exampleUnicode (ascii ''  Pink   FLOYD  '') = ascii ''pink floyd''"
    by code_simp+
  then show ?thesis
    using normalizeString_idempotent [OF v caseStable_exampleUnicode] v caseStable_exampleUnicode
    by (intro conjI) blast+
qed

section \<open>The key encoding\<close>

lemma base64Alphabet_length: "length base64Alphabet = 64"
  by (simp add: base64Alphabet_def ascii_def)

lemma pad_notin: "0x3D \<notin> set base64Alphabet"
  by (simp add: base64Alphabet_def ascii_def)

lemma byte_lt: "unat (a :: byte) < 256"
  using unsigned_less [of a, where ?'a = nat] by simp

lemma base64Alphabet_distinct: "distinct base64Alphabet"
  by (simp add: base64Alphabet_def ascii_def)

lemma base64Char_inj: "m < 64 \<Longrightarrow> n < 64 \<Longrightarrow> base64Char m = base64Char n \<longleftrightarrow> m = n"
  unfolding base64Char_def
  by (rule nth_eq_iff_index_eq) (simp_all only: base64Alphabet_distinct base64Alphabet_length)

lemma base64Char_ne_pad: "n < 64 \<Longrightarrow> base64Char n \<noteq> 0x3D"
  unfolding base64Char_def using pad_notin nth_mem [of n base64Alphabet]
  by (metis base64Alphabet_length)

lemma sext_hi:
  fixes a b a' b' k :: nat
  assumes "a * k + b = a' * k + b'" "b < k" "b' < k"
  shows "a = a' \<and> b = b'"
proof -
  have "(a * k + b) div k = a" using assms(2) by simp
  moreover have "(a' * k + b') div k = a'" using assms(3) by simp
  ultimately have "a = a'" using assms(1) by metis
  with assms(1) show ?thesis by simp
qed

lemma split_div_mod: "(a::nat) div k = a' div k \<Longrightarrow> a mod k = a' mod k \<Longrightarrow> a = a'"
  by (metis div_mult_mod_eq)

lemma sextets3:
  fixes a b c a' b' c' :: nat
  assumes lt: "b < 256" "c < 256" "b' < 256" "c' < 256"
    and 1: "a div 4 = a' div 4"
    and 2: "a mod 4 * 16 + b div 16 = a' mod 4 * 16 + b' div 16"
    and 3: "b mod 16 * 4 + c div 64 = b' mod 16 * 4 + c' div 64"
    and 4: "c mod 64 = c' mod 64"
  shows "a = a' \<and> b = b' \<and> c = c'"
proof -
  have "b div 16 < 16" "b' div 16 < 16" "c div 64 < 4" "c' div 64 < 4" using lt by simp_all
  then have "a mod 4 = a' mod 4 \<and> b div 16 = b' div 16" "b mod 16 = b' mod 16 \<and> c div 64 = c' div 64"
    using 2 3 sext_hi by blast+
  with 1 4 show ?thesis
    using split_div_mod [of a 4 a'] split_div_mod [of b 16 b'] split_div_mod [of c 64 c'] by blast
qed

lemma base64_eq_Nil: "base64 bs = [] \<longleftrightarrow> bs = []"
  by (cases bs rule: base64.cases) simp_all

lemma sextet_bounds:
  fixes a b c :: byte
  shows "unat a div 4 < 64" "unat a mod 4 * 16 < 64" "unat a mod 4 * 16 + unat b div 16 < 64"
    "unat b mod 16 * 4 < 64" "unat b mod 16 * 4 + unat c div 64 < 64" "unat c mod 64 < 64"
proof -
  have "unat a < 256" "unat b < 256" "unat c < 256" by (rule byte_lt)+
  then show "unat a div 4 < 64" "unat a mod 4 * 16 < 64" "unat a mod 4 * 16 + unat b div 16 < 64"
    "unat b mod 16 * 4 < 64" "unat b mod 16 * 4 + unat c div 64 < 64" "unat c mod 64 < 64"
    by simp_all
qed

lemmas base64Char_simps =
  base64Char_inj [OF sextet_bounds(1) sextet_bounds(1)]
  base64Char_inj [OF sextet_bounds(2) sextet_bounds(2)]
  base64Char_inj [OF sextet_bounds(3) sextet_bounds(3)]
  base64Char_inj [OF sextet_bounds(4) sextet_bounds(4)]
  base64Char_inj [OF sextet_bounds(5) sextet_bounds(5)]
  base64Char_inj [OF sextet_bounds(6) sextet_bounds(6)]
  base64Char_ne_pad [OF sextet_bounds(4)] base64Char_ne_pad [OF sextet_bounds(5)]
  base64Char_ne_pad [OF sextet_bounds(6)]
  base64Char_ne_pad [OF sextet_bounds(4), symmetric] base64Char_ne_pad [OF sextet_bounds(5), symmetric]
  base64Char_ne_pad [OF sextet_bounds(6), symmetric]

lemma base64_one: assumes "base64 [a] = base64 [a']" shows "a = a'"
proof -
  from assms have "unat a div 4 = unat a' div 4" "unat a mod 4 * 16 = unat a' mod 4 * 16"
    by (simp_all add: base64Char_simps)
  then have "unat a div 4 = unat a' div 4" "unat a mod 4 = unat a' mod 4" by simp_all
  then have "unat a = unat a'" by (rule split_div_mod)
  then show ?thesis by (simp only: word_unat_eq_iff)
qed

lemma base64_two: assumes "base64 [a, b] = base64 [a', b']" shows "a = a' \<and> b = b'"
proof -
  from assms have e: "unat a div 4 = unat a' div 4"
      "unat a mod 4 * 16 + unat b div 16 = unat a' mod 4 * 16 + unat b' div 16"
      "unat b mod 16 * 4 = unat b' mod 16 * 4"
    by (simp_all add: base64Char_simps)
  have "unat b div 16 < 16" "unat b' div 16 < 16" using byte_lt [of b] byte_lt [of b'] by simp_all
  then have "unat a mod 4 = unat a' mod 4 \<and> unat b div 16 = unat b' div 16"
    by (rule sext_hi [OF e(2)])
  moreover from e(3) have "unat b mod 16 = unat b' mod 16" by simp
  ultimately have "unat a = unat a'" "unat b = unat b'"
    using e(1) split_div_mod [of "unat a" 4 "unat a'"] split_div_mod [of "unat b" 16 "unat b'"]
    by blast+
  then show ?thesis by (simp only: word_unat_eq_iff)
qed

lemma base64_three:
  assumes "base64 (a # b # c # bs) = base64 (a' # b' # c' # bs')"
  shows "a = a' \<and> b = b' \<and> c = c' \<and> base64 bs = base64 bs'"
proof -
  from assms have e: "unat a div 4 = unat a' div 4"
      "unat a mod 4 * 16 + unat b div 16 = unat a' mod 4 * 16 + unat b' div 16"
      "unat b mod 16 * 4 + unat c div 64 = unat b' mod 16 * 4 + unat c' div 64"
      "unat c mod 64 = unat c' mod 64" and r: "base64 bs = base64 bs'"
    by (simp_all add: base64Char_simps)
  have "unat a = unat a' \<and> unat b = unat b' \<and> unat c = unat c'"
    by (rule sextets3 [OF byte_lt byte_lt byte_lt byte_lt e])
  with r show ?thesis by (simp only: word_unat_eq_iff)
qed

lemma base64_inj: "base64 xs = base64 ys \<Longrightarrow> xs = ys"
proof (induction xs arbitrary: ys rule: base64.induct)
  case 1
  then show ?case using base64_eq_Nil [of ys] by simp
next
  case (2 a)
  show ?case
  proof (cases ys rule: base64.cases)
    case (2 a')
    with "2.prems" show ?thesis using base64_one by blast
  qed (use "2.prems" in \<open>simp_all add: base64Char_simps\<close>)
next
  case (3 a b)
  show ?case
  proof (cases ys rule: base64.cases)
    case (3 a' b')
    with "3.prems" show ?thesis using base64_two by blast
  qed (use "3.prems" in \<open>simp_all add: base64Char_simps\<close>)
next
  case (4 a b c bs)
  show ?case
  proof (cases ys rule: base64.cases)
    case (4 a' b' c' bs')
    with "4.prems" have "a = a' \<and> b = b' \<and> c = c' \<and> base64 bs = base64 bs'"
      using base64_three by blast
    with "4.IH" 4 show ?thesis by blast
  qed (use "4.prems" in \<open>simp_all add: base64Char_simps\<close>)
qed

subsection \<open>UTF-8\<close>

lemma utf8Bytes_ne: "utf8Bytes cp \<noteq> []"
  by (simp add: utf8Bytes_def)

lemma utf8Bytes_lt: "cp < 0x110000 \<Longrightarrow> b \<in> set (utf8Bytes cp) \<Longrightarrow> b < 256"
  by (auto simp add: utf8Bytes_def split: if_splits)

lemma utf8Bytes_length:
  "cp < 0x110000 \<Longrightarrow>
   length (utf8Bytes cp) =
     (if hd (utf8Bytes cp) < 0x80 then 1 else if hd (utf8Bytes cp) < 0xE0 then 2
      else if hd (utf8Bytes cp) < 0xF0 then 3 else 4)"
  by (auto simp add: utf8Bytes_def)

lemma digits2:
  fixes a k :: nat
  shows "a div (k * k) * (k * k) + a div k mod k * k + a mod k = a"
proof -
  have e: "a div (k * k) = a div k div k" by (simp add: div_mult2_eq)
  have q: "a div k div k * k + a div k mod k = a div k" by simp
  have "a div (k * k) * (k * k) + a div k mod k * k
        = (a div k div k * k + a div k mod k) * k"
    by (simp only: e add_mult_distrib mult.assoc)
  also have "\<dots> = a div k * k" by (simp only: q)
  finally show ?thesis by simp
qed

lemma digits3:
  fixes a k :: nat
  shows "a div (k * k * k) * (k * k * k) + a div (k * k) mod k * (k * k) + a div k mod k * k
         + a mod k = a"
proof -
  have e: "a div (k * (k * k)) = a div (k * k) div k"
    using div_mult2_eq [of a "k * k" k] by (simp only: mult.commute mult.left_commute)
  have q: "a div (k * k) div k * k + a div (k * k) mod k = a div (k * k)" by simp
  have "a div (k * k * k) * (k * k * k) + a div (k * k) mod k * (k * k)
        = (a div (k * k) div k * k + a div (k * k) mod k) * (k * k)"
    by (simp only: e add_mult_distrib mult.assoc)
  also have "\<dots> = a div (k * k) * (k * k)" by (simp only: q)
  finally have "a div (k * k * k) * (k * k * k) + a div (k * k) mod k * (k * k)
                = a div (k * k) * (k * k)" .
  then show ?thesis using digits2 [of a k] by simp
qed

lemma digits64:
  fixes a :: nat
  shows "a div 0x40 * 0x40 + a mod 0x40 = a"
    and "a div 0x1000 * 0x1000 + a div 0x40 mod 0x40 * 0x40 + a mod 0x40 = a"
    and "a div 0x40000 * 0x40000 + a div 0x1000 mod 0x40 * 0x1000 + a div 0x40 mod 0x40 * 0x40
         + a mod 0x40 = a"
  using digits2 [of a "0x40"] digits3 [of a "0x40"] by simp_all

lemma utf8Bytes_decode:
  assumes "\<not> isSurrogate cp"
  shows "cp = (case utf8Bytes cp of
                 [a] \<Rightarrow> a
               | [a, b] \<Rightarrow> (a - 0xC0) * 0x40 + (b - 0x80)
               | [a, b, c] \<Rightarrow> (a - 0xE0) * 0x1000 + (b - 0x80) * 0x40 + (c - 0x80)
               | [a, b, c, d] \<Rightarrow>
                   (a - 0xF0) * 0x40000 + (b - 0x80) * 0x1000 + (c - 0x80) * 0x40 + (d - 0x80))"
  using assms by (simp add: utf8Bytes_def digits64)

lemma utf8Bytes_inj:
  assumes "\<not> isSurrogate a" "\<not> isSurrogate b" "utf8Bytes a = utf8Bytes b"
  shows "a = b"
  using utf8Bytes_decode [OF assms(1)] utf8Bytes_decode [OF assms(2)] assms(3) by simp

lemma utf8Bytes_prefix:
  assumes "a < 0x110000" "b < 0x110000" "\<not> isSurrogate a" "\<not> isSurrogate b"
    and e: "utf8Bytes a @ r = utf8Bytes b @ r'"
  shows "a = b \<and> r = r'"
proof -
  have "hd (utf8Bytes a @ r) = hd (utf8Bytes a)" "hd (utf8Bytes b @ r') = hd (utf8Bytes b)"
    by (simp_all add: utf8Bytes_ne)
  with e have "hd (utf8Bytes a) = hd (utf8Bytes b)" by simp
  then have "length (utf8Bytes a) = length (utf8Bytes b)"
    using utf8Bytes_length [OF assms(1)] utf8Bytes_length [OF assms(2)] by simp
  with e have "utf8Bytes a = utf8Bytes b \<and> r = r'" by simp
  with assms(3,4) show ?thesis using utf8Bytes_inj by blast
qed

lemma utf8_bytes_inj:
  "codePointList xs \<Longrightarrow> list_all (\<lambda>c. \<not> isSurrogate c) xs \<Longrightarrow>
   codePointList ys \<Longrightarrow> list_all (\<lambda>c. \<not> isSurrogate c) ys \<Longrightarrow>
   concat (map utf8Bytes xs) = concat (map utf8Bytes ys) \<Longrightarrow> xs = ys"
proof (induction xs arbitrary: ys)
  case Nil
  then show ?case by (cases ys) (simp_all add: utf8Bytes_ne)
next
  case (Cons x xs)
  show ?case
  proof (cases ys)
    case Nil
    with Cons.prems show ?thesis by (simp add: utf8Bytes_ne)
  next
    case (Cons y ys')
    with Cons.prems have "utf8Bytes x @ concat (map utf8Bytes xs)
                          = utf8Bytes y @ concat (map utf8Bytes ys')" by simp
    moreover from Cons Cons.prems have "x < 0x110000" "y < 0x110000" "\<not> isSurrogate x"
      "\<not> isSurrogate y" by (simp_all add: codePointList_def)
    ultimately have "x = y \<and> concat (map utf8Bytes xs) = concat (map utf8Bytes ys')"
      using utf8Bytes_prefix by blast
    moreover from Cons Cons.prems have "codePointList xs" "list_all (\<lambda>c. \<not> isSurrogate c) xs"
      "codePointList ys'" "list_all (\<lambda>c. \<not> isSurrogate c) ys'" by (simp_all add: codePointList_def)
    ultimately show ?thesis using Cons.IH Cons by blast
  qed
qed

lemma unat_byte: "n < 256 \<Longrightarrow> unat (of_nat n :: byte) = n"
  unfolding unat_of_nat by simp

lemma map_unat_bytes: "list_all (\<lambda>n. n < 256) ns \<Longrightarrow> map unat (map of_nat ns :: byte list) = ns"
  by (induction ns) (simp_all add: unat_byte del: of_nat_add)

lemma utf8_lt: "codePointList cps \<Longrightarrow> list_all (\<lambda>n. n < 256) (concat (map utf8Bytes cps))"
  unfolding codePointList_def list_all_iff using utf8Bytes_lt by auto

lemma utf8_inj:
  assumes "codePointList xs" "list_all (\<lambda>c. \<not> isSurrogate c) xs"
    "codePointList ys" "list_all (\<lambda>c. \<not> isSurrogate c) ys" "utf8 xs = utf8 ys"
  shows "xs = ys"
proof -
  from assms(5) have "map unat (utf8 xs) = map unat (utf8 ys)" by (simp only:)
  then have "concat (map utf8Bytes xs) = concat (map utf8Bytes ys)"
    unfolding utf8_def by (simp only: map_unat_bytes [OF utf8_lt [OF assms(1)]]
        map_unat_bytes [OF utf8_lt [OF assms(3)]])
  with assms(1-4) show ?thesis by (rule utf8_bytes_inj)
qed

lemma bufferFrom_inj:
  assumes "wellFormed a" "wellFormed b" "bufferFrom a = bufferFrom b"
  shows "a = b"
proof -
  from assms(1,2) have "codePointList (codePoints a)" "codePointList (codePoints b)"
    by (simp_all add: wellFormed_def codePointList_codePoints)
  moreover from assms(1,2) have "list_all (\<lambda>c. \<not> isSurrogate c) (codePoints a)"
    "list_all (\<lambda>c. \<not> isSurrogate c) (codePoints b)" by (simp_all add: wellFormed_def)
  ultimately have "codePoints a = codePoints b"
    using assms(3) utf8_inj unfolding bufferFrom_def by blast
  then have "codeUnits (codePoints a) = codeUnits (codePoints b)" by (simp only:)
  with assms(1,2) show ?thesis by (simp add: wellFormed_def codeUnits_codePoints)
qed

lemma createUniqueKey_eq_iff:
  assumes "wellFormed (normalizedData u r s1 p1 t1)" "wellFormed (normalizedData u r s2 p2 t2)"
  shows "createUniqueKey u r s1 p1 t1 = createUniqueKey u r s2 p2 t2 \<longleftrightarrow>
         normalizedData u r s1 p1 t1 = normalizedData u r s2 p2 t2"
proof
  assume "createUniqueKey u r s1 p1 t1 = createUniqueKey u r s2 p2 t2"
  then have "bufferFrom (normalizedData u r s1 p1 t1) = bufferFrom (normalizedData u r s2 p2 t2)"
    unfolding createUniqueKey_def by (rule base64_inj)
  with assms show "normalizedData u r s1 p1 t1 = normalizedData u r s2 p2 t2"
    by (rule bufferFrom_inj)
qed (simp add: createUniqueKey_def)

lemma takeWhile_separator: "c \<notin> set a \<Longrightarrow> takeWhile (\<lambda>x. x \<noteq> c) (a @ c # r) = a"
  by (induction a) auto

lemma split_at_separator:
  assumes "c \<notin> set a" "c \<notin> set a'" "a @ c # r = a' @ c # r'"
  shows "a = a' \<and> r = r'"
proof -
  have "takeWhile (\<lambda>x. x \<noteq> c) (a @ c # r) = a" "takeWhile (\<lambda>x. x \<noteq> c) (a' @ c # r') = a'"
    using assms(1,2) by (simp_all add: takeWhile_separator)
  with assms(3) have "a = a'" by simp
  with assms(3) show ?thesis by simp
qed

lemma ascii_hyphen: "ascii ''-'' = [0x2D]"
  by (simp add: ascii_def)

text \<open>
  C4, as amended: \<open>createUniqueKey\<close> is a function of the normalised seller, the price and
  the normalised title (equal inputs, and inputs equal after normalisation, give equal
  keys). When the strings encoded have no unpaired surrogate: with the price and the title
  fixed, two sellers give the same key exactly when they normalise to the same string; with
  the price and the seller fixed, the same holds of two titles; and with the price fixed,
  two pairs of seller and title whose normalised sellers contain no hyphen give the same
  key only when both components normalise to equal strings. This holds for every lowercase
  mapping and every way of printing the price.
\<close>

theorem createUniqueKey_injective:
  "(normalizeString u s1 = normalizeString u s2 \<and> normalizeString u t1 = normalizeString u t2
      \<longrightarrow> createUniqueKey u r s1 p t1 = createUniqueKey u r s2 p t2)
   \<and> (wellFormed (normalizedData u r s1 p t) \<and> wellFormed (normalizedData u r s2 p t)
      \<longrightarrow> (createUniqueKey u r s1 p t = createUniqueKey u r s2 p t
            \<longleftrightarrow> normalizeString u s1 = normalizeString u s2))
   \<and> (wellFormed (normalizedData u r s p t1) \<and> wellFormed (normalizedData u r s p t2)
      \<longrightarrow> (createUniqueKey u r s p t1 = createUniqueKey u r s p t2
            \<longleftrightarrow> normalizeString u t1 = normalizeString u t2))
   \<and> (wellFormed (normalizedData u r s1 p t1) \<and> wellFormed (normalizedData u r s2 p t2)
        \<and> 0x2D \<notin> set (normalizeString u s1) \<and> 0x2D \<notin> set (normalizeString u s2)
        \<and> createUniqueKey u r s1 p t1 = createUniqueKey u r s2 p t2
      \<longrightarrow> normalizeString u s1 = normalizeString u s2 \<and> normalizeString u t1 = normalizeString u t2)"
proof (intro conjI impI)
  assume "normalizeString u s1 = normalizeString u s2 \<and> normalizeString u t1 = normalizeString u t2"
  then show "createUniqueKey u r s1 p t1 = createUniqueKey u r s2 p t2"
    by (simp add: createUniqueKey_def normalizedData_def)
next
  assume a: "wellFormed (normalizedData u r s1 p t) \<and> wellFormed (normalizedData u r s2 p t)"
  from a [THEN conjunct1] a [THEN conjunct2]
  have "createUniqueKey u r s1 p t = createUniqueKey u r s2 p t
        \<longleftrightarrow> normalizedData u r s1 p t = normalizedData u r s2 p t"
    by (rule createUniqueKey_eq_iff)
  then show "createUniqueKey u r s1 p t = createUniqueKey u r s2 p t
             \<longleftrightarrow> normalizeString u s1 = normalizeString u s2"
    by (simp add: normalizedData_def)
next
  assume a: "wellFormed (normalizedData u r s p t1) \<and> wellFormed (normalizedData u r s p t2)"
  from a [THEN conjunct1] a [THEN conjunct2]
  have "createUniqueKey u r s p t1 = createUniqueKey u r s p t2
        \<longleftrightarrow> normalizedData u r s p t1 = normalizedData u r s p t2"
    by (rule createUniqueKey_eq_iff)
  then show "createUniqueKey u r s p t1 = createUniqueKey u r s p t2
             \<longleftrightarrow> normalizeString u t1 = normalizeString u t2"
    by (simp add: normalizedData_def)
next
  assume a: "wellFormed (normalizedData u r s1 p t1) \<and> wellFormed (normalizedData u r s2 p t2)
             \<and> 0x2D \<notin> set (normalizeString u s1) \<and> 0x2D \<notin> set (normalizeString u s2)
             \<and> createUniqueKey u r s1 p t1 = createUniqueKey u r s2 p t2"
  then have "normalizedData u r s1 p t1 = normalizedData u r s2 p t2"
    using createUniqueKey_eq_iff [of u r s1 p t1 s2 p t2] by blast
  then have "normalizeString u s1 @ 0x2D # (r p @ ascii ''-'' @ normalizeString u t1) =
             normalizeString u s2 @ 0x2D # (r p @ ascii ''-'' @ normalizeString u t2)"
    by (simp add: normalizedData_def ascii_hyphen)
  with a have "normalizeString u s1 = normalizeString u s2
               \<and> r p @ ascii ''-'' @ normalizeString u t1
                 = r p @ ascii ''-'' @ normalizeString u t2"
    by (intro split_at_separator [of "0x2D"]) simp_all
  then show "normalizeString u s1 = normalizeString u s2" "normalizeString u t1 = normalizeString u t2"
    by simp_all
qed

theorem createUniqueKey_injective_witness:
  "wellFormed (normalizedData exampleUnicode decimal (ascii ''RareVinyl'') 50 (ascii ''The Wall''))
   \<and> wellFormed (normalizedData exampleUnicode decimal (ascii ''RareVinyl'') 50 (ascii ''The Walls''))
   \<and> wellFormed (normalizedData exampleUnicode decimal (ascii ''OtherVinyl'') 50 (ascii ''The Wall''))
   \<and> createUniqueKey exampleUnicode decimal (ascii ''RareVinyl'') 50 (ascii ''The Wall'')
       = createUniqueKey exampleUnicode decimal (ascii '' rarevinyl '') 50 (ascii ''THE  WALL'')
   \<and> createUniqueKey exampleUnicode decimal (ascii ''RareVinyl'') 50 (ascii ''The Wall'')
       \<noteq> createUniqueKey exampleUnicode decimal (ascii ''RareVinyl'') 50 (ascii ''The Walls'')
   \<and> createUniqueKey exampleUnicode decimal (ascii ''RareVinyl'') 50 (ascii ''The Wall'')
       \<noteq> createUniqueKey exampleUnicode decimal (ascii ''OtherVinyl'') 50 (ascii ''The Wall'')"
proof -
  have n: "normalizeString exampleUnicode (ascii ''RareVinyl'')
           = normalizeString exampleUnicode (ascii '' rarevinyl '')"
    "normalizeString exampleUnicode (ascii ''The Wall'')
     = normalizeString exampleUnicode (ascii ''THE  WALL'')"
    "normalizeString exampleUnicode (ascii ''The Wall'')
     \<noteq> normalizeString exampleUnicode (ascii ''The Walls'')"
    "normalizeString exampleUnicode (ascii ''RareVinyl'')
     \<noteq> normalizeString exampleUnicode (ascii ''OtherVinyl'')"
    by code_simp+
  have w: "wellFormed (normalizedData exampleUnicode decimal (ascii ''RareVinyl'') 50 (ascii ''The Wall''))"
    "wellFormed (normalizedData exampleUnicode decimal (ascii ''RareVinyl'') 50 (ascii ''The Walls''))"
    "wellFormed (normalizedData exampleUnicode decimal (ascii ''OtherVinyl'') 50 (ascii ''The Wall''))"
    by code_simp+
  show ?thesis
    using n w
      createUniqueKey_injective
        [where u = exampleUnicode and r = decimal and ?s1.0 = "ascii ''RareVinyl''"
           and ?s2.0 = "ascii '' rarevinyl ''" and ?t1.0 = "ascii ''The Wall''"
           and ?t2.0 = "ascii ''THE  WALL''" and p = 50]
      createUniqueKey_injective
        [where u = exampleUnicode and r = decimal and s = "ascii ''RareVinyl''"
           and ?t1.0 = "ascii ''The Wall''" and ?t2.0 = "ascii ''The Walls''" and p = 50]
      createUniqueKey_injective
        [where u = exampleUnicode and r = decimal and ?s1.0 = "ascii ''RareVinyl''"
           and ?s2.0 = "ascii ''OtherVinyl''" and t = "ascii ''The Wall''" and p = 50]
    by blast
qed

text \<open>
  C4 as stated fails. At price 5, the seller \<open>a-5-b\<close> with the title \<open>c\<close> and the seller
  \<open>a\<close> with the title \<open>b-5-c\<close> have the same key, although the sellers normalise to
  different strings and so do the titles. And two sellers that are different unpaired
  surrogates have the same key with the same price and title, although they are their own
  normal forms: both are encoded as U+FFFD.
\<close>

theorem createUniqueKey_collision:
  "createUniqueKey exampleUnicode decimal (ascii ''a-5-b'') 5 (ascii ''c'')
     = createUniqueKey exampleUnicode decimal (ascii ''a'') 5 (ascii ''b-5-c'')
   \<and> normalizeString exampleUnicode (ascii ''a-5-b'') \<noteq> normalizeString exampleUnicode (ascii ''a'')
   \<and> normalizeString exampleUnicode (ascii ''c'') \<noteq> normalizeString exampleUnicode (ascii ''b-5-c'')
   \<and> createUniqueKey exampleUnicode decimal [0xD800] 5 (ascii ''c'')
       = createUniqueKey exampleUnicode decimal [0xDFFF] 5 (ascii ''c'')
   \<and> normalizeString exampleUnicode [0xD800] = [0xD800]
   \<and> normalizeString exampleUnicode [0xDFFF] = [0xDFFF]"
  by code_simp

section \<open>Properties of the reconciliation step\<close>

lemma stringIncludes_sublist: "stringIncludes s t \<longleftrightarrow> sublist t s"
  by (induction s) (simp_all add: sublist_Cons_right)

lemma isRelevantListing_sublist:
  "isRelevantListing u l prefs \<longleftrightarrow>
     (\<exists>p \<in> set prefs. prefType p = Artist
        \<and> sublist (normalizeString u (prefValue p)) (normalizeString u (artist l)))
     \<or> (\<exists>p \<in> set prefs. prefType p = Album
        \<and> sublist (normalizeString u (prefValue p)) (normalizeString u (title l)))"
  by (auto simp add: isRelevantListing_def Let_def list_ex_iff stringIncludes_sublist)

lemma isRelevantListing_genre:
  "isRelevantListing u l (filter (\<lambda>p. prefType p \<noteq> Genre) prefs) = isRelevantListing u l prefs"
proof -
  have "filter (\<lambda>p. prefType p = Artist) (filter (\<lambda>p. prefType p \<noteq> Genre) prefs)
        = filter (\<lambda>p. prefType p = Artist) prefs"
    "filter (\<lambda>p. prefType p = Album) (filter (\<lambda>p. prefType p \<noteq> Genre) prefs)
        = filter (\<lambda>p. prefType p = Album) prefs"
    by (induction prefs) auto
  then show ?thesis by (simp add: isRelevantListing_def)
qed

lemma processListing_irrelevant:
  "\<not> isRelevantListing u l prefs \<Longrightarrow> processListing u prefs now l s = Inr s"
  by (simp add: processListing_def split: prod.splits)

lemma getExistingListing_None:
  "getExistingListing key d = None \<longleftrightarrow> key \<notin> set (map uniqueKey (vinyl_listings d))"
  by (auto simp add: getExistingListing_def find_None_iff)

lemma find_key_None:
  "key \<notin> set (map uniqueKey rows) \<Longrightarrow> find (\<lambda>r. uniqueKey r = key) rows = None"
  by (induction rows) auto

lemma find_append_fresh:
  "find P xs = None \<Longrightarrow> find P (xs @ [x]) = (if P x then Some x else None)"
  by (induction xs) (auto split: if_splits)

lemma price_rowToListing: "price (rowToListing r) = price r"
  and isActive_rowToListing: "isActive (rowToListing r) = isActive r"
  and lastSeen_rowToListing: "lastSeen (rowToListing r) = lastSeen r"
  and id_rowToListing: "id' (rowToListing r) = id' r"
  and uniqueKey_rowToListing: "uniqueKey (rowToListing r) = uniqueKey r"
  by (simp_all add: rowToListing_def)

lemma processListing_absent:
  assumes "isRelevantListing u l prefs"
    and "uniqueKey l \<notin> set (map uniqueKey (vinyl_listings d))"
    and "id' l \<notin> set (map id' (vinyl_listings d))"
  shows "processListing u prefs now l (d, news) =
         Inr (d\<lparr>vinyl_listings := vinyl_listings d @ [l],
                 price_history := price_history d
                   @ [\<lparr>listingId = id' l, recordedPrice = price l, dateRecorded = now\<rparr>]\<rparr>,
              news @ [l])"
proof -
  from assms(2) have "getExistingListing (uniqueKey l) d = None"
    by (simp only: getExistingListing_None not_False_eq_True)
  moreover from assms(2,3) have "insertListing l d = Inr (d\<lparr>vinyl_listings := vinyl_listings d @ [l]\<rparr>)"
    by (simp add: insertListing_def)
  ultimately show ?thesis using assms(1)
    by (simp add: processListing_def addPriceHistory_def)
qed

lemma processListing_id_taken:
  assumes "isRelevantListing u l prefs"
    and "uniqueKey l \<notin> set (map uniqueKey (vinyl_listings d))"
    and "id' l \<in> set (map id' (vinyl_listings d))"
  shows "processListing u prefs now l (d, news) = Inl ConstraintError"
proof -
  from assms(2) have "getExistingListing (uniqueKey l) d = None"
    by (simp only: getExistingListing_None not_False_eq_True)
  moreover from assms(3) have "insertListing l d = Inl ConstraintError"
    by (simp add: insertListing_def)
  ultimately show ?thesis using assms(1) by (simp add: processListing_def)
qed

lemma processListing_present:
  assumes "isRelevantListing u l prefs"
    and "getExistingListing (uniqueKey l) d = Some e"
  shows "processListing u prefs now l (d, news) =
         Inr ((updateListingLastSeen (uniqueKey l) now d)
                \<lparr>price_history := price_history d
                   @ (if price e \<noteq> price l
                      then [\<lparr>listingId = id' e, recordedPrice = price l, dateRecorded = now\<rparr>]
                      else [])\<rparr>,
              news)"
  using assms
  by (simp add: processListing_def addPriceHistory_def updateListingLastSeen_def)

lemma find_touch:
  "find (\<lambda>r. uniqueKey r = key)
     (map (\<lambda>r. if uniqueKey r = key then r\<lparr>lastSeen := now, isActive := True\<rparr> else r) rows)
   = map_option (\<lambda>r. r\<lparr>lastSeen := now, isActive := True\<rparr>) (find (\<lambda>r. uniqueKey r = key) rows)"
  by (induction rows) simp_all

lemma rowToListing_touch:
  "rowToListing (r\<lparr>lastSeen := now, isActive := True\<rparr>) = (rowToListing r)\<lparr>lastSeen := now, isActive := True\<rparr>"
  by (simp add: rowToListing_def)

lemma getExistingListing_updateListingLastSeen:
  "getExistingListing key (updateListingLastSeen key now d) =
   map_option (\<lambda>r. r\<lparr>lastSeen := now, isActive := True\<rparr>) (getExistingListing key d)"
  by (simp add: getExistingListing_def updateListingLastSeen_def find_touch option.map_comp o_def
      rowToListing_touch)

lemma getExistingListing_price_history:
  "getExistingListing key (d\<lparr>price_history := h\<rparr>) = getExistingListing key d"
  by (simp add: getExistingListing_def)

lemma frame_updateListingLastSeen:
  "map (\<lambda>r. r\<lparr>lastSeen := t, isActive := b\<rparr>) (vinyl_listings (updateListingLastSeen key now d))
   = map (\<lambda>r. r\<lparr>lastSeen := t, isActive := b\<rparr>) (vinyl_listings d)"
  by (simp add: updateListingLastSeen_def o_def if_distrib cong: if_cong)

text \<open>A listing the Discogs service builds carries the UUID drawn for it and is active.\<close>

lemma convertToVinylListing_fresh:
  "id' (convertToVinylListing u r uuid now listing) = uuid"
  "isActive (convertToVinylListing u r uuid now listing)"
  "lastSeen (convertToVinylListing u r uuid now listing) = now"
  by (simp_all add: convertToVinylListing_def Let_def)

section \<open>Claims about the reconciliation step\<close>

text \<open>
  C1: a listing is relevant exactly when its normalised artist contains, as a substring,
  the normalised value of some preference of type artist, or its normalised title contains
  the normalised value of some preference of type album. Preferences of type genre do not
  affect the decision: removing them from the list leaves it unchanged. For a listing that
  is not relevant the step returns the database and the new listings as they were: no
  insert, no update of last-seen, no price observation.
\<close>

theorem isRelevantListing_iff:
  "(isRelevantListing u l prefs \<longleftrightarrow>
      (\<exists>p \<in> set prefs. prefType p = Artist
         \<and> sublist (normalizeString u (prefValue p)) (normalizeString u (artist l)))
      \<or> (\<exists>p \<in> set prefs. prefType p = Album
         \<and> sublist (normalizeString u (prefValue p)) (normalizeString u (title l))))
   \<and> isRelevantListing u l (filter (\<lambda>p. prefType p \<noteq> Genre) prefs) = isRelevantListing u l prefs
   \<and> (\<not> isRelevantListing u l prefs \<longrightarrow> processListing u prefs now l (d, news) = Inr (d, news))"
  using isRelevantListing_sublist [of u l prefs] isRelevantListing_genre [of u l prefs]
    processListing_irrelevant [of u l prefs now "(d, news)"]
  by blast

theorem isRelevantListing_iff_witness:
  "isRelevantListing exampleUnicode theWall [progRock, pinkFloyd]
   \<and> isRelevantListing exampleUnicode theWall [wallAlbum]
   \<and> \<not> isRelevantListing exampleUnicode theWall [progRock]
   \<and> processListing exampleUnicode [progRock] 1000 theWall (emptyDatabase [progRock], [])
       = Inr (emptyDatabase [progRock], [])"
proof -
  have "sublist (normalizeString exampleUnicode (prefValue pinkFloyd)) (normalizeString exampleUnicode (artist theWall))"
    "sublist (normalizeString exampleUnicode (prefValue wallAlbum)) (normalizeString exampleUnicode (title theWall))"
    "prefType pinkFloyd = Artist" "prefType wallAlbum = Album" "prefType progRock = Genre"
    by code_simp+
  then show ?thesis
    using isRelevantListing_iff [of exampleUnicode theWall "[progRock, pinkFloyd]"]
      isRelevantListing_iff [of exampleUnicode theWall "[wallAlbum]"]
      isRelevantListing_iff [of exampleUnicode theWall "[progRock]" 1000 "emptyDatabase [progRock]" "[]"]
    by simp
qed

text \<open>
  C2: for a relevant candidate whose unique key is not in the store, the step inserts the
  listing, appends exactly one price observation, with the candidate's id and price and the
  current time, and adds the candidate to the new listings; the store then finds the key,
  with the active flag true. The candidate is one the Discogs service has built: its id is
  a fresh UUID, in no stored row, and its active flag is set, as \<open>convertToVinylListing\<close>
  and the other constructors of the service set it (the insert writes the flag the candidate
  carries, and is rejected when the id is that of a stored row).
\<close>

theorem processListing_new:
  assumes "isRelevantListing u l prefs"
    and "uniqueKey l \<notin> set (map uniqueKey (vinyl_listings d))"
    and "id' l \<notin> set (map id' (vinyl_listings d))"
    and "isActive l"
  shows "\<exists>d1. processListing u prefs now l (d, news) = Inr (d1, news @ [l])
           \<and> vinyl_listings d1 = vinyl_listings d @ [l]
           \<and> price_history d1 = price_history d
                @ [\<lparr>listingId = id' l, recordedPrice = price l, dateRecorded = now\<rparr>]
           \<and> user_preferences d1 = user_preferences d
           \<and> map_option isActive (getExistingListing (uniqueKey l) d1) = Some True"
proof -
  let ?d1 = "d\<lparr>vinyl_listings := vinyl_listings d @ [l],
                price_history := price_history d
                  @ [\<lparr>listingId = id' l, recordedPrice = price l, dateRecorded = now\<rparr>]\<rparr>"
  have "find (\<lambda>r. uniqueKey r = uniqueKey l) (vinyl_listings d) = None"
    using assms(2) by (rule find_key_None)
  then have "getExistingListing (uniqueKey l) ?d1 = Some (rowToListing l)"
    by (simp add: getExistingListing_def find_append_fresh)
  with assms(4) have "map_option isActive (getExistingListing (uniqueKey l) ?d1) = Some True"
    by (simp add: isActive_rowToListing)
  moreover have "processListing u prefs now l (d, news) = Inr (?d1, news @ [l])"
    using assms(1-3) by (rule processListing_absent)
  ultimately show ?thesis by (intro exI [of _ ?d1]) simp
qed

theorem processListing_new_witness:
  "isRelevantListing exampleUnicode theWall [pinkFloyd] \<and> isActive theWall
   \<and> (\<exists>d1. processListing exampleUnicode [pinkFloyd] 1000 theWall (emptyDatabase [pinkFloyd], [])
              = Inr (d1, [theWall])
          \<and> vinyl_listings d1 = [theWall]
          \<and> price_history d1 = [\<lparr>listingId = ascii ''uuid-1'', recordedPrice = 50, dateRecorded = 1000\<rparr>]
          \<and> map_option isActive (getExistingListing (uniqueKey theWall) d1) = Some True)"
proof -
  have h: "isRelevantListing exampleUnicode theWall [pinkFloyd]"
    "uniqueKey theWall \<notin> set (map uniqueKey (vinyl_listings (emptyDatabase [pinkFloyd])))"
    "id' theWall \<notin> set (map id' (vinyl_listings (emptyDatabase [pinkFloyd])))"
    "isActive theWall"
    by code_simp+
  have e: "vinyl_listings (emptyDatabase [pinkFloyd]) = []"
    "price_history (emptyDatabase [pinkFloyd]) = []"
    "id' theWall = ascii ''uuid-1''" "price theWall = 50"
    by code_simp+
  show ?thesis
    using h processListing_new [OF h, of 1000 "[]"] by (auto simp add: e)
qed

text \<open>
  C3: for a relevant candidate whose unique key the store finds, with a stored price that
  differs from the candidate's, the step updates last-seen to the current time and sets
  the active flag on the rows with that key, and appends exactly one price observation,
  with the stored listing's id, the candidate's price and the current time. No row is
  added, and the candidate is not added to the new listings.
\<close>

theorem processListing_price_changed:
  assumes "isRelevantListing u l prefs"
    and "getExistingListing (uniqueKey l) d = Some e"
    and "price e \<noteq> price l"
  shows "\<exists>d1. processListing u prefs now l (d, news) = Inr (d1, news)
           \<and> vinyl_listings d1 =
               map (\<lambda>r. if uniqueKey r = uniqueKey l then r\<lparr>lastSeen := now, isActive := True\<rparr> else r)
                 (vinyl_listings d)
           \<and> getExistingListing (uniqueKey l) d1 = Some (e\<lparr>lastSeen := now, isActive := True\<rparr>)
           \<and> price_history d1 = price_history d
                @ [\<lparr>listingId = id' e, recordedPrice = price l, dateRecorded = now\<rparr>]
           \<and> length (vinyl_listings d1) = length (vinyl_listings d)
           \<and> user_preferences d1 = user_preferences d"
proof -
  let ?d1 = "(updateListingLastSeen (uniqueKey l) now d)
               \<lparr>price_history := price_history d
                  @ [\<lparr>listingId = id' e, recordedPrice = price l, dateRecorded = now\<rparr>]\<rparr>"
  have "processListing u prefs now l (d, news) = Inr (?d1, news)"
    using processListing_present [OF assms(1,2), of now news] assms(3) by simp
  moreover have "getExistingListing (uniqueKey l) ?d1 = Some (e\<lparr>lastSeen := now, isActive := True\<rparr>)"
    using assms(2)
    by (simp add: getExistingListing_price_history getExistingListing_updateListingLastSeen)
  ultimately show ?thesis
    by (intro exI [of _ ?d1]) (simp add: updateListingLastSeen_def)
qed

theorem processListing_price_changed_witness:
  "isRelevantListing exampleUnicode (theWall\<lparr>price := 120\<rparr>) [pinkFloyd]
   \<and> getExistingListing (uniqueKey (theWall\<lparr>price := 120\<rparr>))
         \<lparr>vinyl_listings = [theWall\<lparr>price := 100\<rparr>], price_history = [], user_preferences = []\<rparr>
       = Some (theWall\<lparr>price := 100\<rparr>)
   \<and> (\<exists>d1. processListing exampleUnicode [pinkFloyd] 2000 (theWall\<lparr>price := 120\<rparr>)
              (\<lparr>vinyl_listings = [theWall\<lparr>price := 100\<rparr>], price_history = [],
                user_preferences = []\<rparr>, [])
            = Inr (d1, [])
          \<and> vinyl_listings d1 = [theWall\<lparr>price := 100, lastSeen := 2000\<rparr>]
          \<and> price_history d1 = [\<lparr>listingId = ascii ''uuid-1'', recordedPrice = 120, dateRecorded = 2000\<rparr>])"
proof -
  let ?d = "\<lparr>vinyl_listings = [theWall\<lparr>price := 100\<rparr>], price_history = [], user_preferences = []\<rparr>"
  have h: "isRelevantListing exampleUnicode (theWall\<lparr>price := 120\<rparr>) [pinkFloyd]"
    "getExistingListing (uniqueKey (theWall\<lparr>price := 120\<rparr>)) ?d = Some (theWall\<lparr>price := 100\<rparr>)"
    "price (theWall\<lparr>price := 100\<rparr>) \<noteq> price (theWall\<lparr>price := 120\<rparr>)"
    by code_simp+
  have e: "theWall\<lparr>price := 100, lastSeen := 2000, isActive := True\<rparr> = theWall\<lparr>price := 100, lastSeen := 2000\<rparr>"
    "id' theWall = ascii ''uuid-1''"
    by code_simp+
  show ?thesis
    using h(1,2) processListing_price_changed [OF h, of 2000 "[]"] by (auto simp add: e)
qed

text \<open>
  C9: on the path where the stored price differs from the candidate's, the step changes no
  column of any row other than last-seen and the active flag (the table is the same once
  these two are blanked), so the stored price stays what it was, and the only other write is
  the appended price observation. The store still finds the key with the old price, so a
  later step that sees the same candidate at the same new price compares against the old
  stored price again and appends a further observation.
\<close>

theorem price_changed_frame:
  assumes "isRelevantListing u l prefs"
    and "getExistingListing (uniqueKey l) d = Some e"
    and "price e \<noteq> price l"
  shows "\<exists>d1 d2.
           processListing u prefs now l (d, news) = Inr (d1, news)
           \<and> map (\<lambda>r. r\<lparr>lastSeen := 0, isActive := False\<rparr>) (vinyl_listings d1)
               = map (\<lambda>r. r\<lparr>lastSeen := 0, isActive := False\<rparr>) (vinyl_listings d)
           \<and> map price (vinyl_listings d1) = map price (vinyl_listings d)
           \<and> user_preferences d1 = user_preferences d
           \<and> price_history d1 = price_history d
                @ [\<lparr>listingId = id' e, recordedPrice = price l, dateRecorded = now\<rparr>]
           \<and> map_option price (getExistingListing (uniqueKey l) d1) = Some (price e)
           \<and> processListing u prefs later l (d1, news1) = Inr (d2, news1)
           \<and> map price (vinyl_listings d2) = map price (vinyl_listings d)
           \<and> price_history d2 = price_history d
                @ [\<lparr>listingId = id' e, recordedPrice = price l, dateRecorded = now\<rparr>,
                   \<lparr>listingId = id' e, recordedPrice = price l, dateRecorded = later\<rparr>]
           \<and> map_option price (getExistingListing (uniqueKey l) d2) = Some (price e)"
proof -
  let ?touch = "\<lambda>t d. updateListingLastSeen (uniqueKey l) t d"
  let ?obs = "\<lambda>t. \<lparr>listingId = id' e, recordedPrice = price l, dateRecorded = t\<rparr>"
  let ?d1 = "(?touch now d)\<lparr>price_history := price_history d @ [?obs now]\<rparr>"
  let ?e1 = "e\<lparr>lastSeen := now, isActive := True\<rparr>"
  let ?d2 = "(?touch later ?d1)\<lparr>price_history := price_history ?d1 @ [?obs later]\<rparr>"
  have s1: "processListing u prefs now l (d, news) = Inr (?d1, news)"
    using processListing_present [OF assms(1,2), of now news] assms(3) by simp
  have g1: "getExistingListing (uniqueKey l) ?d1 = Some ?e1"
    using assms(2)
    by (simp add: getExistingListing_price_history getExistingListing_updateListingLastSeen)
  have p1: "price ?e1 \<noteq> price l" using assms(3) by simp
  have s2: "processListing u prefs later l (?d1, news1) = Inr (?d2, news1)"
    using processListing_present [OF assms(1) g1, of later news1] p1 by simp
  have g2: "getExistingListing (uniqueKey l) ?d2 = Some (?e1\<lparr>lastSeen := later, isActive := True\<rparr>)"
    using g1
    by (simp only: getExistingListing_price_history getExistingListing_updateListingLastSeen
        option.map)
  have f1: "map (\<lambda>r. r\<lparr>lastSeen := 0, isActive := False\<rparr>) (vinyl_listings ?d1)
            = map (\<lambda>r. r\<lparr>lastSeen := 0, isActive := False\<rparr>) (vinyl_listings d)"
    using frame_updateListingLastSeen [where t = 0 and b = False and key = "uniqueKey l"
        and now = now and d = d] by simp
  have pr: "map price (vinyl_listings (?touch t d')) = map price (vinyl_listings d')" for t d'
    by (simp add: updateListingLastSeen_def o_def if_distrib cong: if_cong)
  have m1: "map price (vinyl_listings ?d1) = map price (vinyl_listings d)"
    using pr [of now d] by simp
  have m2: "map price (vinyl_listings ?d2) = map price (vinyl_listings d)"
    using pr [of later ?d1] m1 by simp
  have u1: "user_preferences ?d1 = user_preferences d"
    by (simp add: updateListingLastSeen_def)
  have h1: "price_history ?d1 = price_history d @ [?obs now]" by simp
  have h2: "price_history ?d2 = price_history d @ [?obs now, ?obs later]" by simp
  have q1: "map_option price (getExistingListing (uniqueKey l) ?d1) = Some (price e)"
    by (simp only: g1) simp
  have q2: "map_option price (getExistingListing (uniqueKey l) ?d2) = Some (price e)"
    by (simp only: g2) simp
  show ?thesis
    using s1 f1 m1 u1 h1 q1 s2 m2 h2 q2 by blast
qed

theorem price_changed_frame_witness:
  "\<exists>d1 d2. processListing exampleUnicode [pinkFloyd] 2000 (theWall\<lparr>price := 120\<rparr>)
              (\<lparr>vinyl_listings = [theWall\<lparr>price := 100\<rparr>], price_history = [],
                user_preferences = []\<rparr>, [])
            = Inr (d1, [])
          \<and> map price (vinyl_listings d1) = [100]
          \<and> processListing exampleUnicode [pinkFloyd] 3000 (theWall\<lparr>price := 120\<rparr>) (d1, []) = Inr (d2, [])
          \<and> map price (vinyl_listings d2) = [100]
          \<and> price_history d2 =
              [\<lparr>listingId = ascii ''uuid-1'', recordedPrice = 120, dateRecorded = 2000\<rparr>,
               \<lparr>listingId = ascii ''uuid-1'', recordedPrice = 120, dateRecorded = 3000\<rparr>]"
proof -
  let ?d = "\<lparr>vinyl_listings = [theWall\<lparr>price := 100\<rparr>], price_history = [], user_preferences = []\<rparr>"
  have h: "isRelevantListing exampleUnicode (theWall\<lparr>price := 120\<rparr>) [pinkFloyd]"
    "getExistingListing (uniqueKey (theWall\<lparr>price := 120\<rparr>)) ?d = Some (theWall\<lparr>price := 100\<rparr>)"
    "price (theWall\<lparr>price := 100\<rparr>) \<noteq> price (theWall\<lparr>price := 120\<rparr>)"
    by code_simp+
  have e: "id' theWall = ascii ''uuid-1''" by code_simp
  show ?thesis
    using price_changed_frame [OF h, of 2000 "[]" 3000 "[]"] by (auto simp add: e)
qed

section \<open>Properties of a scraping session\<close>

lemma gathered_none: "gathered candidates d d []"
  by (simp add: gathered_def)

lemma gathered_append:
  assumes "gathered cs1 d d1 ns1" "gathered cs2 d1 d2 ns2"
  shows "gathered (cs1 @ cs2) d d2 (ns1 @ ns2)"
proof -
  have k1: "map uniqueKey (vinyl_listings d1) = map uniqueKey (vinyl_listings d) @ map uniqueKey ns1"
    and k2: "map uniqueKey (vinyl_listings d2) = map uniqueKey (vinyl_listings d1) @ map uniqueKey ns2"
    using assms by (simp_all add: gathered_def)
  have s: "subseq (ns1 @ ns2) (cs1 @ cs2)"
    using assms by (simp add: gathered_def list_emb_append_mono)
  have d1: "distinct (map uniqueKey ns1)" "distinct (map uniqueKey ns2)"
    using assms by (simp_all add: gathered_def)
  have i1: "set (map uniqueKey ns1) \<inter> set (map uniqueKey (vinyl_listings d)) = {}"
    and i2: "set (map uniqueKey ns2) \<inter> set (map uniqueKey (vinyl_listings d1)) = {}"
    using assms by (simp_all only: gathered_def)
  from i2 k1 have i3: "set (map uniqueKey ns2) \<inter> set (map uniqueKey (vinyl_listings d)) = {}"
    "set (map uniqueKey ns2) \<inter> set (map uniqueKey ns1) = {}"
    by auto
  from d1 i3(2) have "distinct (map uniqueKey (ns1 @ ns2))" by auto
  moreover from i1 i3(1) have "set (map uniqueKey (ns1 @ ns2)) \<inter> set (map uniqueKey (vinyl_listings d)) = {}"
    by auto
  ultimately show ?thesis using k1 k2 s by (simp add: gathered_def)
qed

lemma keys_updateListingLastSeen:
  "map uniqueKey (vinyl_listings (updateListingLastSeen key now d)) = map uniqueKey (vinyl_listings d)"
  by (simp add: updateListingLastSeen_def o_def if_distrib cong: if_cong)

lemma processListing_gathered:
  assumes "processListing u prefs now l (d, news) = Inr (d1, news1)"
  shows "\<exists>ns. news1 = news @ ns \<and> gathered [l] d d1 ns"
proof (cases "isRelevantListing u l prefs")
  case False
  with assms have "d1 = d" "news1 = news" by (simp_all add: processListing_irrelevant)
  then show ?thesis using gathered_none by simp
next
  case True
  show ?thesis
  proof (cases "getExistingListing (uniqueKey l) d")
    case (Some e)
    from assms processListing_present [OF True Some, of now news]
    have "news1 = news" "map uniqueKey (vinyl_listings d1) = map uniqueKey (vinyl_listings d)"
      by (auto simp add: keys_updateListingLastSeen)
    then have "news1 = news @ [] \<and> gathered [l] d d1 []" by (simp add: gathered_def)
    then show ?thesis by blast
  next
    case None
    then have fresh: "uniqueKey l \<notin> set (map uniqueKey (vinyl_listings d))"
      by (simp only: getExistingListing_None not_False_eq_True)
    show ?thesis
    proof (cases "id' l \<in> set (map id' (vinyl_listings d))")
      case True
      with assms \<open>isRelevantListing u l prefs\<close> fresh show ?thesis
        by (simp add: processListing_id_taken)
    next
      case False
      from assms processListing_absent [OF \<open>isRelevantListing u l prefs\<close> fresh False, of now news]
      have "news1 = news @ [l]" "vinyl_listings d1 = vinyl_listings d @ [l]" by auto
      with fresh have "news1 = news @ [l] \<and> gathered [l] d d1 [l]" by (simp add: gathered_def)
      then show ?thesis by blast
    qed
  qed
qed

lemma processListings_gathered:
  "processListings u prefs now ls (d, news) = ((d1, news1), err)
   \<Longrightarrow> \<exists>ns. news1 = news @ ns \<and> gathered ls d d1 ns"
proof (induction ls arbitrary: d news)
  case Nil
  then show ?case using gathered_none by simp
next
  case (Cons l ls)
  show ?case
  proof (cases "processListing u prefs now l (d, news)")
    case (Inl e)
    with Cons.prems have "d1 = d" "news1 = news" by simp_all
    then show ?thesis using gathered_none by simp
  next
    case (Inr s)
    obtain d2 news2 where s: "s = (d2, news2)" by (cases s)
    with Inr obtain ns1 where 1: "news2 = news @ ns1" "gathered [l] d d2 ns1"
      using processListing_gathered by blast
    from Cons.prems Inr s have "processListings u prefs now ls (d2, news2) = ((d1, news1), err)"
      by simp
    then obtain ns2 where 2: "news1 = news2 @ ns2" "gathered ls d2 d1 ns2"
      using Cons.IH by blast
    from 1 2 have "news1 = news @ (ns1 @ ns2)" by simp
    moreover have "gathered (l # ls) d d1 (ns1 @ ns2)"
      using gathered_append [OF 1(2) 2(2)] by simp
    ultimately show ?thesis by blast
  qed
qed

lemma scrapeArtist_cases:
  obtains (ok) d1 news1 where
      "processListings u prefs (clock w) (searchForArtist api (prefValue p)) (db w, news)
         = ((d1, news1), None)"
      "scrapeArtist u api delay prefs p (w, news)
         = (w\<lparr>searches := searches w @ [prefValue p], db := d1, clock := clock w + delay\<rparr>, news1)"
  | (failed) d1 news1 e where
      "processListings u prefs (clock w) (searchForArtist api (prefValue p)) (db w, news)
         = ((d1, news1), Some e)"
      "scrapeArtist u api delay prefs p (w, news)
         = (w\<lparr>searches := searches w @ [prefValue p], db := d1,
               telegramCalls := telegramCalls w
                 @ [ErrorNotification (ascii ''Failed to scrape artist: '' @ prefValue p) (ascii ''discogs'')]\<rparr>,
            news1)"
proof -
  obtain d1 news1 err where r:
    "processListings u prefs (clock w) (searchForArtist api (prefValue p)) (db w, news)
       = ((d1, news1), err)"
    by (metis surj_pair)
  show thesis
  proof (cases err)
    case None
    with r show ?thesis
      by (intro ok [of d1 news1]) (simp_all add: scrapeArtist_def Let_def)
  next
    case (Some e)
    with r show ?thesis
      by (intro failed [of d1 news1 e])
        (simp_all add: scrapeArtist_def Let_def sendErrorNotification_def)
  qed
qed

lemma scrapeArtist_effect:
  assumes "scrapeArtist u api delay prefs p (w, news) = (w1, news1)"
  shows "(\<exists>ns. news1 = news @ ns \<and> gathered (searchForArtist api (prefValue p)) (db w) (db w1) ns)
         \<and> searches w1 = searches w @ [prefValue p]
         \<and> filter is_batch (telegramCalls w1) = filter is_batch (telegramCalls w)"
proof (cases rule: scrapeArtist_cases [of u prefs w api p news delay])
  case (ok d1 n1)
  with assms have "w1 = w\<lparr>searches := searches w @ [prefValue p], db := d1, clock := clock w + delay\<rparr>"
    "news1 = n1" by simp_all
  moreover from ok(1) obtain ns where "n1 = news @ ns"
    "gathered (searchForArtist api (prefValue p)) (db w) d1 ns"
    using processListings_gathered by blast
  ultimately show ?thesis by simp
next
  case (failed d1 n1 e)
  with assms have "w1 = w\<lparr>searches := searches w @ [prefValue p], db := d1,
      telegramCalls := telegramCalls w
        @ [ErrorNotification (ascii ''Failed to scrape artist: '' @ prefValue p) (ascii ''discogs'')]\<rparr>"
    "news1 = n1" by simp_all
  moreover from failed(1) obtain ns where "n1 = news @ ns"
    "gathered (searchForArtist api (prefValue p)) (db w) d1 ns"
    using processListings_gathered by blast
  ultimately show ?thesis by simp
qed

lemma scrapeArtists_effect:
  "scrapeArtists u api delay prefs ps (w, news) = (w1, news1) \<Longrightarrow>
   (\<exists>ns. news1 = news @ ns
      \<and> gathered (concat (map (\<lambda>p. searchForArtist api (prefValue p)) ps)) (db w) (db w1) ns)
   \<and> searches w1 = searches w @ map prefValue ps
   \<and> filter is_batch (telegramCalls w1) = filter is_batch (telegramCalls w)"
proof (induction ps arbitrary: w news)
  case Nil
  then show ?case using gathered_none by simp
next
  case (Cons p ps)
  obtain w2 news2 where s: "scrapeArtist u api delay prefs p (w, news) = (w2, news2)"
    by (metis surj_pair)
  from scrapeArtist_effect [OF s] obtain ns1 where 1: "news2 = news @ ns1"
    "gathered (searchForArtist api (prefValue p)) (db w) (db w2) ns1"
    "searches w2 = searches w @ [prefValue p]"
    "filter is_batch (telegramCalls w2) = filter is_batch (telegramCalls w)"
    by blast
  from Cons.prems s have "scrapeArtists u api delay prefs ps (w2, news2) = (w1, news1)" by simp
  from Cons.IH [OF this] obtain ns2 where 2: "news1 = news2 @ ns2"
    "gathered (concat (map (\<lambda>p. searchForArtist api (prefValue p)) ps)) (db w2) (db w1) ns2"
    "searches w1 = searches w2 @ map prefValue ps"
    "filter is_batch (telegramCalls w1) = filter is_batch (telegramCalls w2)"
    by blast
  have "news1 = news @ (ns1 @ ns2)" using 1(1) 2(1) by simp
  moreover have "gathered (concat (map (\<lambda>p. searchForArtist api (prefValue p)) (p # ps)))
                   (db w) (db w1) (ns1 @ ns2)"
    using gathered_append [OF 1(2) 2(2)] by simp
  moreover have "searches w1 = searches w @ map prefValue (p # ps)" using 1(3) 2(3) by simp
  moreover have "filter is_batch (telegramCalls w1) = filter is_batch (telegramCalls w)"
    using 1(4) 2(4) by simp
  ultimately show ?case by blast
qed

lemma scrapeLoop_effect:
  assumes "scrapeLoop u api delay w = (w1, newListings)"
  shows "gathered
           (concat (map (\<lambda>p. searchForArtist api (prefValue p))
              (filter (\<lambda>p. prefType p = Artist) (user_preferences (db w)))))
           (db w) (db w1) newListings
         \<and> searches w1 = searches w
             @ map prefValue (filter (\<lambda>p. prefType p = Artist) (user_preferences (db w)))
         \<and> filter is_batch (telegramCalls w1) = filter is_batch (telegramCalls w)"
  using scrapeArtists_effect [of u api delay "user_preferences (db w)"
      "filter (\<lambda>p. prefType p = Artist) (user_preferences (db w))" w "[]" w1 newListings] assms
  by (simp add: scrapeLoop_def getUserPreferences_def Let_def)

lemma touch_other_rows:
  "key \<notin> set (map uniqueKey rows) \<Longrightarrow>
   map (\<lambda>r. if uniqueKey r = key then r\<lparr>lastSeen := now, isActive := True\<rparr> else r) rows = rows"
  by (induction rows) auto

section \<open>Claims about a scraping session\<close>

lemma processListings_twice:
  assumes rel: "isRelevantListing u l prefs" "isRelevantListing u l2 prefs"
    and key: "uniqueKey l \<notin> set (map uniqueKey (vinyl_listings d))"
    and ident: "id' l \<notin> set (map id' (vinyl_listings d))"
    and same: "uniqueKey l2 = uniqueKey l"
  shows "processListings u prefs now [l, l2] (d, news) =
           ((d\<lparr>vinyl_listings := vinyl_listings d @ [l\<lparr>lastSeen := now, isActive := True\<rparr>],
               price_history := price_history d
                 @ [\<lparr>listingId = id' l, recordedPrice = price l, dateRecorded = now\<rparr>]
                 @ (if price l \<noteq> price l2
                    then [\<lparr>listingId = id' l, recordedPrice = price l2, dateRecorded = now\<rparr>]
                    else [])\<rparr>,
             news @ [l]), None)"
proof -
  let ?d1 = "d\<lparr>vinyl_listings := vinyl_listings d @ [l],
                price_history := price_history d
                  @ [\<lparr>listingId = id' l, recordedPrice = price l, dateRecorded = now\<rparr>]\<rparr>"
  have 1: "processListing u prefs now l (d, news) = Inr (?d1, news @ [l])"
    using rel(1) key ident by (rule processListing_absent)
  have "find (\<lambda>r. uniqueKey r = uniqueKey l) (vinyl_listings d) = None"
    using key by (rule find_key_None)
  then have g: "getExistingListing (uniqueKey l2) ?d1 = Some (rowToListing l)"
    by (simp add: getExistingListing_def find_append_fresh same)
  have 2: "processListing u prefs now l2 (?d1, news @ [l]) =
           Inr ((updateListingLastSeen (uniqueKey l2) now ?d1)
                  \<lparr>price_history := price_history ?d1
                     @ (if price (rowToListing l) \<noteq> price l2
                        then [\<lparr>listingId = id' (rowToListing l), recordedPrice = price l2,
                               dateRecorded = now\<rparr>]
                        else [])\<rparr>,
                news @ [l])"
    using rel(2) g by (rule processListing_present)
  have u: "vinyl_listings (updateListingLastSeen (uniqueKey l2) now ?d1)
           = vinyl_listings d @ [l\<lparr>lastSeen := now, isActive := True\<rparr>]"
    using touch_other_rows [OF key, of now] by (simp add: updateListingLastSeen_def same)
  have e: "(updateListingLastSeen (uniqueKey l2) now ?d1)
             \<lparr>price_history := price_history ?d1
                @ (if price l \<noteq> price l2
                   then [\<lparr>listingId = id' l, recordedPrice = price l2, dateRecorded = now\<rparr>]
                   else [])\<rparr>
           = d\<lparr>vinyl_listings := vinyl_listings d @ [l\<lparr>lastSeen := now, isActive := True\<rparr>],
               price_history := price_history d
                 @ [\<lparr>listingId = id' l, recordedPrice = price l, dateRecorded = now\<rparr>]
                 @ (if price l \<noteq> price l2
                    then [\<lparr>listingId = id' l, recordedPrice = price l2, dateRecorded = now\<rparr>]
                    else [])\<rparr>"
    by (rule Database.equality) (simp_all add: u, simp_all add: updateListingLastSeen_def)
  show ?thesis
    by (simp only: processListings.simps 1 2 sum.case price_rowToListing id_rowToListing e)
qed

text \<open>
  C6: in one session no unique key is added to the new listings twice, and none that the
  store held at the start is added at all. When a relevant candidate with a fresh id and a
  key that the store does not hold is followed by a relevant candidate with the same key,
  the first is inserted and added to the new listings, and the second finds the row the
  first has inserted: it is not added again, the row count grows by one, and a second
  price observation is appended only if its price differs.
\<close>

theorem new_only_once:
  "(case scrapeLoop u api delay w of
      (w1, newListings) \<Rightarrow>
        distinct (map uniqueKey newListings)
        \<and> set (map uniqueKey newListings) \<inter> set (map uniqueKey (vinyl_listings (db w))) = {})
   \<and> (isRelevantListing u l prefs \<and> isRelevantListing u l2 prefs
        \<and> uniqueKey l \<notin> set (map uniqueKey (vinyl_listings d))
        \<and> id' l \<notin> set (map id' (vinyl_listings d))
        \<and> uniqueKey l2 = uniqueKey l
      \<longrightarrow> (\<exists>d1. processListings u prefs now [l, l2] (d, news) = ((d1, news @ [l]), None)
             \<and> vinyl_listings d1 = vinyl_listings d @ [l\<lparr>lastSeen := now, isActive := True\<rparr>]
             \<and> price_history d1 = price_history d
                 @ [\<lparr>listingId = id' l, recordedPrice = price l, dateRecorded = now\<rparr>]
                 @ (if price l \<noteq> price l2
                    then [\<lparr>listingId = id' l, recordedPrice = price l2, dateRecorded = now\<rparr>]
                    else [])))"
proof (intro conjI impI)
  obtain w1 newListings where s: "scrapeLoop u api delay w = (w1, newListings)"
    by (metis surj_pair)
  from scrapeLoop_effect [OF s]
  have "distinct (map uniqueKey newListings)
        \<and> set (map uniqueKey newListings) \<inter> set (map uniqueKey (vinyl_listings (db w))) = {}"
    by (simp add: gathered_def)
  with s show "case scrapeLoop u api delay w of
      (w1, newListings) \<Rightarrow>
        distinct (map uniqueKey newListings)
        \<and> set (map uniqueKey newListings) \<inter> set (map uniqueKey (vinyl_listings (db w))) = {}"
    by simp
next
  assume a: "isRelevantListing u l prefs \<and> isRelevantListing u l2 prefs
        \<and> uniqueKey l \<notin> set (map uniqueKey (vinyl_listings d))
        \<and> id' l \<notin> set (map id' (vinyl_listings d))
        \<and> uniqueKey l2 = uniqueKey l"
  then have "processListings u prefs now [l, l2] (d, news) =
           ((d\<lparr>vinyl_listings := vinyl_listings d @ [l\<lparr>lastSeen := now, isActive := True\<rparr>],
               price_history := price_history d
                 @ [\<lparr>listingId = id' l, recordedPrice = price l, dateRecorded = now\<rparr>]
                 @ (if price l \<noteq> price l2
                    then [\<lparr>listingId = id' l, recordedPrice = price l2, dateRecorded = now\<rparr>]
                    else [])\<rparr>,
             news @ [l]), None)"
    by (intro processListings_twice) simp_all
  then show "\<exists>d1. processListings u prefs now [l, l2] (d, news) = ((d1, news @ [l]), None)
             \<and> vinyl_listings d1 = vinyl_listings d @ [l\<lparr>lastSeen := now, isActive := True\<rparr>]
             \<and> price_history d1 = price_history d
                 @ [\<lparr>listingId = id' l, recordedPrice = price l, dateRecorded = now\<rparr>]
                 @ (if price l \<noteq> price l2
                    then [\<lparr>listingId = id' l, recordedPrice = price l2, dateRecorded = now\<rparr>]
                    else [])"
    by simp
qed

theorem new_only_once_witness:
  "snd (scrapeLoop exampleUnicode oneListing 500 (startWorld [pinkFloyd, pinkFloyd])) = [theWall]
   \<and> distinct (map uniqueKey (snd (scrapeLoop exampleUnicode oneListing 500 (startWorld [pinkFloyd, pinkFloyd]))))
   \<and> uniqueKey theWallAgain = uniqueKey theWall
   \<and> (\<exists>d1. processListings exampleUnicode [pinkFloyd] 1000 [theWall, theWallAgain] (emptyDatabase [pinkFloyd], [])
              = ((d1, [theWall]), None)
          \<and> vinyl_listings d1 = [theWall]
          \<and> price_history d1 = [\<lparr>listingId = ascii ''uuid-1'', recordedPrice = 50, dateRecorded = 1000\<rparr>])"
proof -
  have h: "isRelevantListing exampleUnicode theWall [pinkFloyd] \<and> isRelevantListing exampleUnicode theWallAgain [pinkFloyd]
        \<and> uniqueKey theWall \<notin> set (map uniqueKey (vinyl_listings (emptyDatabase [pinkFloyd])))
        \<and> id' theWall \<notin> set (map id' (vinyl_listings (emptyDatabase [pinkFloyd])))
        \<and> uniqueKey theWallAgain = uniqueKey theWall"
    by code_simp
  have e: "snd (scrapeLoop exampleUnicode oneListing 500 (startWorld [pinkFloyd, pinkFloyd])) = [theWall]"
    "vinyl_listings (emptyDatabase [pinkFloyd]) = []"
    "price_history (emptyDatabase [pinkFloyd]) = []"
    "theWall\<lparr>lastSeen := 1000, isActive := True\<rparr> = theWall"
    "id' theWall = ascii ''uuid-1''" "price theWall = 50" "price theWallAgain = 50"
    by code_simp+
  show ?thesis
    using h new_only_once [where u = exampleUnicode and api = oneListing and delay = 500
        and w = "startWorld [pinkFloyd, pinkFloyd]" and l = theWall and prefs = "[pinkFloyd]"
        and ?l2.0 = theWallAgain and d = "emptyDatabase [pinkFloyd]" and now = 1000 and news = "[]"]
    by (auto simp add: e split: prod.splits)
qed

lemma scrapeVinyl_effect:
  assumes "scrapeLoop u api delay w = (w1, newListings)"
  shows "telegramCalls (scrapeVinyl u api telegram delay w)
         = telegramCalls w1
           @ (if newListings = [] then []
              else BatchNotification newListings
                   # (if batchDelivered telegram newListings then []
                      else [ErrorNotification (ascii ''General scraping error occurred'') (ascii ''system'')]))"
    and "searches (scrapeVinyl u api telegram delay w) = searches w1"
    and "db (scrapeVinyl u api telegram delay w) = db w1"
    and "clock (scrapeVinyl u api telegram delay w) = clock w1"
  using assms
  by (simp_all add: scrapeVinyl_def sendBatchNotification_def sendErrorNotification_def)

text \<open>
  C5, as amended: the new listings of a session are one sequence, in discovery order: a
  subsequence of the candidates of all the artist searches, in the order of the searches,
  and its keys are the keys of the rows the session has added to the store, in order. The
  loop makes no batch notification. After the loop the sequence is handed to the notifier
  in one batch notification when it is not empty, and no batch notification is made when it
  is empty.
\<close>

theorem newListings_notified:
  "case scrapeLoop u api delay w of
     (w1, newListings) \<Rightarrow>
       subseq newListings
         (concat (map (\<lambda>p. searchForArtist api (prefValue p))
            (filter (\<lambda>p. prefType p = Artist) (user_preferences (db w)))))
       \<and> map uniqueKey (vinyl_listings (db w1))
           = map uniqueKey (vinyl_listings (db w)) @ map uniqueKey newListings
       \<and> filter is_batch (telegramCalls w1) = filter is_batch (telegramCalls w)
       \<and> filter is_batch (telegramCalls (scrapeVinyl u api telegram delay w))
           = filter is_batch (telegramCalls w)
             @ (if newListings = [] then [] else [BatchNotification newListings])"
proof -
  obtain w1 newListings where s: "scrapeLoop u api delay w = (w1, newListings)"
    by (metis surj_pair)
  have "filter is_batch (telegramCalls (scrapeVinyl u api telegram delay w))
        = filter is_batch (telegramCalls w1)
          @ (if newListings = [] then [] else [BatchNotification newListings])"
    by (simp add: scrapeVinyl_effect(1) [OF s])
  with scrapeLoop_effect [OF s] s show ?thesis
    by (simp add: gathered_def)
qed

theorem newListings_notified_witness:
  "telegramCalls (scrapeVinyl exampleUnicode oneListing delivering 500 (startWorld [pinkFloyd, wallAlbum, pinkFloyd]))
     = [BatchNotification [theWall]]
   \<and> filter is_batch
         (telegramCalls (scrapeVinyl exampleUnicode oneListing unreachable 500 (startWorld [pinkFloyd, wallAlbum, pinkFloyd])))
       = [BatchNotification [theWall]]
   \<and> map uniqueKey
         (vinyl_listings (db (fst (scrapeLoop exampleUnicode oneListing 500 (startWorld [pinkFloyd, wallAlbum, pinkFloyd])))))
       = [uniqueKey theWall]"
proof -
  let ?w = "startWorld [pinkFloyd, wallAlbum, pinkFloyd]"
  have e: "snd (scrapeLoop exampleUnicode oneListing 500 ?w) = [theWall]"
    "telegramCalls ?w = []"
    "vinyl_listings (db ?w) = []"
    "telegramCalls (scrapeVinyl exampleUnicode oneListing delivering 500 ?w) = [BatchNotification [theWall]]"
    by code_simp+
  obtain w1 where s: "scrapeLoop exampleUnicode oneListing 500 ?w = (w1, [theWall])"
    using e(1) by (metis prod.collapse)
  show ?thesis
    using newListings_notified [where u = exampleUnicode and api = oneListing and delay = 500 and w = ?w
        and telegram = unreachable]
    by (simp add: s e)
qed

text \<open>
  C5 as stated fails: in a session that finds nothing new, here one whose searches all
  fail, there are no new listings and the notifier is called not once but never.
\<close>

theorem no_new_listings_no_notification:
  "snd (scrapeLoop exampleUnicode offline 500 (startWorld [pinkFloyd])) = []
   \<and> telegramCalls (scrapeVinyl exampleUnicode offline delivering 500 (startWorld [pinkFloyd])) = []"
  by code_simp

lemma searchForArtist_cong:
  assumes "searchReleases api1 q = searchReleases api2 q"
    and "getMarketplaceListings api1 = getMarketplaceListings api2"
  shows "searchForArtist api1 q = searchForArtist api2 q"
  using assms by (simp add: searchForArtist_def split: sum.splits)

lemma scrapeArtists_cong:
  assumes "\<And>p. p \<in> set ps \<Longrightarrow> searchForArtist api1 (prefValue p) = searchForArtist api2 (prefValue p)"
  shows "scrapeArtists u api1 delay prefs ps s = scrapeArtists u api2 delay prefs ps s"
  using assms
proof (induction ps arbitrary: s)
  case Nil
  then show ?case by simp
next
  case (Cons p ps)
  have "scrapeArtist u api1 delay prefs p s = scrapeArtist u api2 delay prefs p s"
    using Cons.prems [of p] by (simp add: scrapeArtist_def)
  with Cons show ?case by simp
qed

text \<open>
  C10: the terms searched on Discogs in a session are the values of the preferences of type
  artist, in their order, and nothing else: no album or genre preference is searched. The
  session depends on Discogs only through the searches for these values: two services that
  answer them alike give the same session. With no artist preference the session makes no
  search and leaves the state as it was: no outcome, no notification.
\<close>

theorem only_artists_searched:
  "searches (scrapeVinyl u api telegram delay w)
     = searches w @ map prefValue (filter (\<lambda>p. prefType p = Artist) (user_preferences (db w)))
   \<and> ((\<forall>p \<in> set (user_preferences (db w)).
          prefType p = Artist \<longrightarrow> searchReleases api (prefValue p) = searchReleases api2 (prefValue p))
        \<and> getMarketplaceListings api = getMarketplaceListings api2
      \<longrightarrow> scrapeVinyl u api telegram delay w = scrapeVinyl u api2 telegram delay w)
   \<and> (filter (\<lambda>p. prefType p = Artist) (user_preferences (db w)) = []
      \<longrightarrow> scrapeVinyl u api telegram delay w = w)"
proof (intro conjI impI)
  obtain w1 newListings where s: "scrapeLoop u api delay w = (w1, newListings)"
    by (metis surj_pair)
  from scrapeLoop_effect [OF s]
  show "searches (scrapeVinyl u api telegram delay w)
     = searches w @ map prefValue (filter (\<lambda>p. prefType p = Artist) (user_preferences (db w)))"
    by (simp add: scrapeVinyl_effect(2) [OF s])
next
  assume a: "(\<forall>p \<in> set (user_preferences (db w)).
          prefType p = Artist \<longrightarrow> searchReleases api (prefValue p) = searchReleases api2 (prefValue p))
        \<and> getMarketplaceListings api = getMarketplaceListings api2"
  have "searchForArtist api (prefValue p) = searchForArtist api2 (prefValue p)"
    if "p \<in> set (filter (\<lambda>p. prefType p = Artist) (user_preferences (db w)))" for p
  proof (rule searchForArtist_cong)
    show "searchReleases api (prefValue p) = searchReleases api2 (prefValue p)"
      using a that by simp
    show "getMarketplaceListings api = getMarketplaceListings api2"
      using a by (rule conjunct2)
  qed
  then have "scrapeLoop u api delay w = scrapeLoop u api2 delay w"
    unfolding scrapeLoop_def Let_def getUserPreferences_def
    by (rule scrapeArtists_cong)
  then show "scrapeVinyl u api telegram delay w = scrapeVinyl u api2 telegram delay w"
    by (simp add: scrapeVinyl_def)
next
  assume "filter (\<lambda>p. prefType p = Artist) (user_preferences (db w)) = []"
  then show "scrapeVinyl u api telegram delay w = w"
    by (simp add: scrapeVinyl_def scrapeLoop_def getUserPreferences_def)
qed

theorem only_artists_searched_witness:
  "searches (scrapeVinyl exampleUnicode oneListing delivering 500 (startWorld [wallAlbum, pinkFloyd, progRock]))
     = [ascii ''pink floyd'']
   \<and> scrapeVinyl exampleUnicode oneListing delivering 500 (startWorld [wallAlbum, progRock])
       = startWorld [wallAlbum, progRock]
   \<and> scrapeVinyl exampleUnicode oneListing delivering 500 (startWorld [wallAlbum, pinkFloyd, progRock])
       = scrapeVinyl exampleUnicode
           (oneListing\<lparr>searchReleases := \<lambda>q. if q = ascii ''pink floyd'' then Inr [1] else Inr [2]\<rparr>)
           delivering 500 (startWorld [wallAlbum, pinkFloyd, progRock])"
proof -
  let ?api2 = "oneListing\<lparr>searchReleases := \<lambda>q. if q = ascii ''pink floyd'' then Inr [1] else Inr [2]\<rparr>"
  have e: "searches (startWorld [wallAlbum, pinkFloyd, progRock]) = []"
    "map prefValue (filter (\<lambda>p. prefType p = Artist)
       (user_preferences (db (startWorld [wallAlbum, pinkFloyd, progRock])))) = [ascii ''pink floyd'']"
    "filter (\<lambda>p. prefType p = Artist) (user_preferences (db (startWorld [wallAlbum, progRock]))) = []"
    by code_simp+
  have h: "(\<forall>p \<in> set (user_preferences (db (startWorld [wallAlbum, pinkFloyd, progRock]))).
              prefType p = Artist
              \<longrightarrow> searchReleases oneListing (prefValue p) = searchReleases ?api2 (prefValue p))
           \<and> getMarketplaceListings oneListing = getMarketplaceListings ?api2"
    by (simp add: startWorld_def emptyDatabase_def oneListing_def wallAlbum_def
        pinkFloyd_def progRock_def)
  note t1 = only_artists_searched [where u = exampleUnicode and api = oneListing and delay = 500 and telegram = delivering
        and w = "startWorld [wallAlbum, pinkFloyd, progRock]" and ?api2.0 = ?api2]
  note t2 = only_artists_searched [where u = exampleUnicode and api = oneListing and delay = 500 and telegram = delivering
        and w = "startWorld [wallAlbum, progRock]" and ?api2.0 = oneListing]
  have a: "searches (scrapeVinyl exampleUnicode oneListing delivering 500 (startWorld [wallAlbum, pinkFloyd, progRock]))
     = [ascii ''pink floyd'']"
    using t1 by (simp only: e append_Nil)
  have b: "scrapeVinyl exampleUnicode oneListing delivering 500 (startWorld [wallAlbum, progRock])
       = startWorld [wallAlbum, progRock]"
    using t2 e(3) by blast
  have c: "scrapeVinyl exampleUnicode oneListing delivering 500 (startWorld [wallAlbum, pinkFloyd, progRock])
       = scrapeVinyl exampleUnicode ?api2 delivering 500 (startWorld [wallAlbum, pinkFloyd, progRock])"
    using t1 h by blast
  show ?thesis using a b c by blast
qed

lemma scrapeArtists_append:
  "scrapeArtists u api delay prefs (ps1 @ ps2) s
   = scrapeArtists u api delay prefs ps2 (scrapeArtists u api delay prefs ps1 s)"
  by (induction ps1 arbitrary: s) simp_all

lemma scrapeArtist_search_failed:
  assumes "searchReleases api (prefValue p) = Inl e"
  shows "scrapeArtist u api delay prefs p (w, news)
         = (w\<lparr>searches := searches w @ [prefValue p], clock := clock w + delay\<rparr>, news)"
proof -
  have "searchForArtist api (prefValue p) = []" using assms by (simp add: searchForArtist_def)
  then show ?thesis by (simp add: scrapeArtist_def)
qed

text \<open>
  C7, as amended: when the search for one artist fails, \<open>searchForArtist\<close> answers with no
  candidates; the turn for that artist then changes nothing but the record of the search
  and the clock: no call to the notifier, no write to the store, no new listing. A failure
  thrown while the candidates of an artist are reconciled (the insert the store rejects) is
  reported to the notifier as an error, once, and its turn makes no other call. In both
  cases the loop goes on: the artists after any one artist are processed from the state its
  turn has left, every artist is searched, and the new listings gathered so far are
  kept. After the loop a non-empty sequence of new listings is handed to the notifier in a
  batch notification.
\<close>

theorem failures_do_not_abort:
  "(searchReleases api (prefValue p) = Inl e \<longrightarrow>
      searchForArtist api (prefValue p) = []
      \<and> scrapeArtist u api delay prefs p (w, news)
          = (w\<lparr>searches := searches w @ [prefValue p], clock := clock w + delay\<rparr>, news))
   \<and> telegramCalls (fst (scrapeArtist u api delay prefs p (w, news)))
       = telegramCalls w
         @ (if snd (processListings u prefs (clock w) (searchForArtist api (prefValue p)) (db w, news))
               = None
            then []
            else [ErrorNotification (ascii ''Failed to scrape artist: '' @ prefValue p) (ascii ''discogs'')])
   \<and> scrapeArtists u api delay prefs (ps1 @ p # ps2) (w, news)
       = scrapeArtists u api delay prefs ps2
           (scrapeArtist u api delay prefs p (scrapeArtists u api delay prefs ps1 (w, news)))
   \<and> searches (fst (scrapeArtists u api delay prefs ps (w, news))) = searches w @ map prefValue ps
   \<and> prefix news (snd (scrapeArtists u api delay prefs ps (w, news)))
   \<and> (snd (scrapeLoop u api delay w) \<noteq> [] \<longrightarrow>
        filter is_batch (telegramCalls (scrapeVinyl u api telegram delay w))
        = filter is_batch (telegramCalls w) @ [BatchNotification (snd (scrapeLoop u api delay w))])"
proof (intro conjI impI)
  assume a: "searchReleases api (prefValue p) = Inl e"
  then show "searchForArtist api (prefValue p) = []" by (simp add: searchForArtist_def)
  from a show "scrapeArtist u api delay prefs p (w, news)
          = (w\<lparr>searches := searches w @ [prefValue p], clock := clock w + delay\<rparr>, news)"
    by (rule scrapeArtist_search_failed)
next
  show "telegramCalls (fst (scrapeArtist u api delay prefs p (w, news)))
       = telegramCalls w
         @ (if snd (processListings u prefs (clock w) (searchForArtist api (prefValue p)) (db w, news))
               = None
            then []
            else [ErrorNotification (ascii ''Failed to scrape artist: '' @ prefValue p) (ascii ''discogs'')])"
    by (cases rule: scrapeArtist_cases [of u prefs w api p news delay]) simp_all
next
  show "scrapeArtists u api delay prefs (ps1 @ p # ps2) (w, news)
       = scrapeArtists u api delay prefs ps2
           (scrapeArtist u api delay prefs p (scrapeArtists u api delay prefs ps1 (w, news)))"
    by (simp add: scrapeArtists_append)
next
  obtain w1 news1 where s: "scrapeArtists u api delay prefs ps (w, news) = (w1, news1)"
    by (metis surj_pair)
  from scrapeArtists_effect [OF s] s
  show "searches (fst (scrapeArtists u api delay prefs ps (w, news))) = searches w @ map prefValue ps"
    "prefix news (snd (scrapeArtists u api delay prefs ps (w, news)))"
    by auto
next
  assume n: "snd (scrapeLoop u api delay w) \<noteq> []"
  obtain w1 newListings where s: "scrapeLoop u api delay w = (w1, newListings)"
    by (metis surj_pair)
  from scrapeLoop_effect [OF s] n s
  show "filter is_batch (telegramCalls (scrapeVinyl u api telegram delay w))
        = filter is_batch (telegramCalls w) @ [BatchNotification (snd (scrapeLoop u api delay w))]"
    by (simp add: scrapeVinyl_effect(1) [OF s])
qed

theorem failures_do_not_abort_witness:
  "scrapeArtist exampleUnicode offline 500 [pinkFloyd] pinkFloyd (startWorld [pinkFloyd], [])
     = ((startWorld [pinkFloyd])\<lparr>searches := [ascii ''pink floyd''], clock := 1500\<rparr>, [])
   \<and> telegramCalls (fst (scrapeArtist exampleUnicode oneListing 500 [pinkFloyd] pinkFloyd (staleWorld, [])))
       = [ErrorNotification (ascii ''Failed to scrape artist: pink floyd'') (ascii ''discogs'')]
   \<and> filter is_batch (telegramCalls (scrapeVinyl exampleUnicode flaky unreachable 500 (startWorld [pinkFloyd, queen])))
       = [BatchNotification [theWall]]"
proof -
  have h: "searchReleases offline (prefValue pinkFloyd) = Inl DiscogsApiError"
    "snd (processListings exampleUnicode [pinkFloyd] (clock staleWorld)
            (searchForArtist oneListing (prefValue pinkFloyd)) (db staleWorld, []))
     \<noteq> None"
    "snd (scrapeLoop exampleUnicode flaky 500 (startWorld [pinkFloyd, queen])) = [theWall]"
    by code_simp+
  have e: "searches (startWorld [pinkFloyd]) = []" "clock (startWorld [pinkFloyd]) = 1000"
    "prefValue pinkFloyd = ascii ''pink floyd''" "telegramCalls staleWorld = []"
    "telegramCalls (startWorld [pinkFloyd, queen]) = []"
    "ascii ''Failed to scrape artist: '' @ ascii ''pink floyd''
     = ascii ''Failed to scrape artist: pink floyd''"
    by code_simp+
  have a: "scrapeArtist exampleUnicode offline 500 [pinkFloyd] pinkFloyd (startWorld [pinkFloyd], [])
       = ((startWorld [pinkFloyd])\<lparr>searches := searches (startWorld [pinkFloyd]) @ [prefValue pinkFloyd],
            clock := clock (startWorld [pinkFloyd]) + 500\<rparr>, [])"
    using h(1) failures_do_not_abort [where u = exampleUnicode and api = offline and p = pinkFloyd and e = DiscogsApiError
        and delay = 500 and prefs = "[pinkFloyd]" and w = "startWorld [pinkFloyd]" and news = "[]"
        and ?ps1.0 = "[]" and ?ps2.0 = "[]" and ps = "[]" and telegram = delivering]
    by blast
  have b: "telegramCalls (fst (scrapeArtist exampleUnicode oneListing 500 [pinkFloyd] pinkFloyd (staleWorld, [])))
       = telegramCalls staleWorld
         @ [ErrorNotification (ascii ''Failed to scrape artist: '' @ prefValue pinkFloyd) (ascii ''discogs'')]"
    using h(2) failures_do_not_abort [where u = exampleUnicode and api = oneListing and p = pinkFloyd
        and delay = 500 and prefs = "[pinkFloyd]" and w = staleWorld and news = "[]"
        and ?ps1.0 = "[]" and ?ps2.0 = "[]" and ps = "[]" and telegram = delivering]
    by presburger
  have "snd (scrapeLoop exampleUnicode flaky 500 (startWorld [pinkFloyd, queen])) \<noteq> []"
    by (simp add: h(3))
  then have c: "filter is_batch (telegramCalls (scrapeVinyl exampleUnicode flaky unreachable 500 (startWorld [pinkFloyd, queen])))
        = filter is_batch (telegramCalls (startWorld [pinkFloyd, queen]))
          @ [BatchNotification (snd (scrapeLoop exampleUnicode flaky 500 (startWorld [pinkFloyd, queen])))]"
    using failures_do_not_abort [where u = exampleUnicode and api = flaky and delay = 500 and telegram = unreachable
        and w = "startWorld [pinkFloyd, queen]" and p = pinkFloyd and prefs = "[]" and news = "[]"
        and ?ps1.0 = "[]" and ?ps2.0 = "[]" and ps = "[]"]
    by blast
  show ?thesis
    by (simp add: a b c h(3) e)
qed

text \<open>
  C7 as stated fails: the search for \<open>pink floyd\<close> fails, the session goes on to
  \<open>queen\<close> and ends with the batch notification, and no error has been reported to the
  notifier.
\<close>

theorem search_failure_not_reported:
  "searchReleases flaky (prefValue pinkFloyd) = Inl DiscogsApiError
   \<and> searches (scrapeVinyl exampleUnicode flaky delivering 500 (startWorld [pinkFloyd, queen]))
       = [ascii ''pink floyd'', ascii ''queen'']
   \<and> telegramCalls (scrapeVinyl exampleUnicode flaky delivering 500 (startWorld [pinkFloyd, queen]))
       = [BatchNotification [theWall]]
   \<and> filter is_error (telegramCalls (scrapeVinyl exampleUnicode flaky delivering 500 (startWorld [pinkFloyd, queen])))
       = []"
  by code_simp

end
